theory Spec2Isabelle
  imports Main "HOL-Library.AList" "HOL-Library.Sublist"
begin

section \<open>JavaScript values\<close>

text \<open>
  The values that flow through \<^verbatim>\<open>lib/multiSemanticRelease.js\<close> and the command line
  entry point. An object is the list of its own enumerable properties in insertion order.
  An array is an object too: its elements are the properties named by their index
  (\<open>''0''\<close>, \<open>''1''\<close>, ...), and the constructor \<open>JArr\<close> records that
  \<^verbatim>\<open>Array.isArray\<close> holds. Numbers are integers (no claim depends on fractions or NaN),
  a function is opaque and carries a label only. Property names are unique within one
  object; the theorems that need this say so.
\<close>

datatype jsval =
    JUndefined
  | JNull
  | JBool bool
  | JNum int
  | JStr string
  | JFun string
  | JObj "(string \<times> jsval) list"
  | JArr "(string \<times> jsval) list"

type_synonym jsobj = "(string \<times> jsval) list"

text \<open>Truthiness, as \<^verbatim>\<open>if (v)\<close>, \<^verbatim>\<open>v && ...\<close> and \<^verbatim>\<open>filter(Boolean)\<close> read a value.\<close>

fun truthy :: "jsval \<Rightarrow> bool" where
  "truthy JUndefined = False"
| "truthy JNull = False"
| "truthy (JBool b) = b"
| "truthy (JNum n) = (n \<noteq> 0)"
| "truthy (JStr s) = (s \<noteq> [])"
| "truthy (JFun f) = True"
| "truthy (JObj ps) = True"
| "truthy (JArr ps) = True"

text \<open>Reading an own property of an object: a missing property reads \<open>undefined\<close>.\<close>

definition getOwn :: "jsobj \<Rightarrow> string \<Rightarrow> jsval" where
  "getOwn ps k = (case map_of ps k of None \<Rightarrow> JUndefined | Some v \<Rightarrow> v)"

text \<open>\<^verbatim>\<open>v.k\<close> on a value that is neither \<open>undefined\<close> nor \<open>null\<close>; a primitive has no
  property of interest here.\<close>

fun getProp :: "jsval \<Rightarrow> string \<Rightarrow> jsval" where
  "getProp (JObj ps) k = getOwn ps k"
| "getProp (JArr ps) k = getOwn ps k"
| "getProp v k = JUndefined"

text \<open>Decimal numerals, as template strings and array indices print a number.\<close>

definition digitChar :: "nat \<Rightarrow> char" where
  "digitChar d = ''0123456789'' ! d"

function showNat :: "nat \<Rightarrow> string" where
  "showNat n = (if n < 10 then [digitChar n] else showNat (n div 10) @ [digitChar (n mod 10)])"
  by pat_completeness auto
termination
  by (relation "measure id") auto

definition indexNames :: "nat \<Rightarrow> string list" where
  "indexNames n = map showNat [0..<n]"

text \<open>The array literal \<^verbatim>\<open>[x0, x1, ...]\<close>.\<close>

definition jsArray :: "jsval list \<Rightarrow> jsval" where
  "jsArray xs = JArr (zip (indexNames (length xs)) xs)"

text \<open>
  The own enumerable properties that \<^verbatim>\<open>Object.assign\<close> and the spread \<^verbatim>\<open>{...v}\<close> copy from a
  source: those of an object or array, the characters of a string, nothing otherwise.
\<close>

fun ownProps :: "jsval \<Rightarrow> jsobj" where
  "ownProps (JObj ps) = ps"
| "ownProps (JArr ps) = ps"
| "ownProps (JStr s) = zip (indexNames (length s)) (map (\<lambda>c. JStr [c]) s)"
| "ownProps v = []"

text \<open>
  \<^verbatim>\<open>Object.assign(target, source)\<close>, and one \<^verbatim>\<open>...source\<close> of an object literal: the
  properties of the source are assigned in order; an assignment to an existing property
  keeps its place, a new property goes last.
\<close>

definition assign :: "jsobj \<Rightarrow> jsobj \<Rightarrow> jsobj" where
  "assign target source = fold (\<lambda>(k, v). AList.update k v) source target"

section \<open>Packages and the collaborators of the orchestrator\<close>

text \<open>The errors the code throws itself, and the rejection of a package's release.\<close>

datatype error =
    Error string
  | ValueError string
  | TypeError string
  | PipelineError string

text \<open>\<^verbatim>\<open>{ cwd, env, stdout, stderr }\<close>: the settings argument, and the execution environment
  handed to the release engine.\<close>

record settings =
  cwd :: jsval
  env :: jsval
  stdout :: jsval
  stderr :: jsval

text \<open>
  The \<^verbatim>\<open>Package\<close> object. \<open>localDeps\<close> holds references to package objects of the
  \<^verbatim>\<open>packages\<close> array: a reference is the position of the object in that array. \<open>result\<close>
  is \<open>undefined\<close> until it is assigned.
\<close>

record package =
  path :: jsval
  dir :: jsval
  name :: string
  manifest :: jsval
  deps :: "string list"
  options :: jsobj
  plugins :: jsval
  loggerRef :: jsval
  localDeps :: "nat list"
  result :: jsval

text \<open>
  The modules that \<^verbatim>\<open>multiSemanticRelease.js\<close> requires and that are not part of the
  sources at hand are parameters of the model: the \<^verbatim>\<open>directory\<close> and \<^verbatim>\<open>stream\<close> checkers
  of \<^verbatim>\<open>./blork\<close>, the defaults read from \<^verbatim>\<open>process\<close>, \<^verbatim>\<open>cleanPath\<close>, \<^verbatim>\<open>path.dirname\<close>,
  \<^verbatim>\<open>getManifest\<close>, \<^verbatim>\<open>getConfig\<close>, \<^verbatim>\<open>getConfigSemantic\<close> (which returns \<open>options\<close> and
  \<open>plugins\<close>) and the inline plugin that \<^verbatim>\<open>createInlinePluginCreator\<close> builds for a
  package. They are taken to return; what the release engine does is not a parameter
  but part of the schedule of a run, below.
\<close>

record collaborators =
  isDirectory :: "jsval \<Rightarrow> bool"
  isStream :: "jsval \<Rightarrow> bool"
  processCwd :: jsval
  processEnv :: jsval
  processStdout :: jsval
  processStderr :: jsval
  cleanPath :: "jsval \<Rightarrow> jsval \<Rightarrow> jsval"
  dirname :: "jsval \<Rightarrow> jsval"
  getManifest :: "jsval \<Rightarrow> jsval"
  getConfig :: "jsval \<Rightarrow> jsobj"
  getConfigSemantic :: "settings \<Rightarrow> jsobj \<Rightarrow> jsobj \<times> jsval"
  createInlinePlugin :: "package list \<Rightarrow> jsobj \<Rightarrow> package \<Rightarrow> jsobj"

text \<open>\<^verbatim>\<open>multiContext\<close>.\<close>

record multiContext =
  globalOptions :: jsobj
  inputOptions :: jsobj
  mcSettings :: settings

section \<open>Loading a package\<close>

text \<open>
  \<^verbatim>\<open>resolvePackageOrPath\<close>: a string is a path to a manifest file, anything else is returned
  as it is; \<^verbatim>\<open>getPackage\<close> then destructures \<open>dir\<close>, \<open>path\<close> and \<open>manifest\<close> from it,
  which throws on \<open>undefined\<close> and \<open>null\<close>.
\<close>

definition resolvePackageOrPath ::
  "collaborators \<Rightarrow> jsval \<Rightarrow> jsval \<Rightarrow> error + (jsval \<times> jsval \<times> jsval)" where
  "resolvePackageOrPath C packageOrPath cwd' =
     (case packageOrPath of
        JStr s \<Rightarrow>
          (let path' = cleanPath C (JStr s) cwd';
               dir' = dirname C path';
               manifest' = getManifest C path'
           in Inr (dir', path', manifest'))
      | JUndefined \<Rightarrow> Inl (TypeError ''Cannot destructure undefined'')
      | JNull \<Rightarrow> Inl (TypeError ''Cannot destructure null'')
      | v \<Rightarrow> Inr (getProp v ''dir'', getProp v ''path'', getProp v ''manifest''))"

text \<open>
  \<^verbatim>\<open>Object.keys({...dependencies, ...devDependencies, ...peerDependencies,
  ...optionalDependencies})\<close>.
\<close>

definition depNames :: "jsval \<Rightarrow> string list" where
  "depNames m =
     map fst
       (assign (assign (assign (assign []
          (ownProps (getProp m ''dependencies'')))
          (ownProps (getProp m ''devDependencies'')))
          (ownProps (getProp m ''peerDependencies'')))
          (ownProps (getProp m ''optionalDependencies'')))"

text \<open>\<^verbatim>\<open>Object.assign({}, globalOptions, pkgOptions, inputOptions)\<close>.\<close>

definition finalOptions :: "jsobj \<Rightarrow> jsobj \<Rightarrow> jsobj \<Rightarrow> jsobj" where
  "finalOptions globalOptions' pkgOptions inputOptions' =
     assign (assign (assign [] globalOptions') pkgOptions) inputOptions'"

text \<open>
  \<^verbatim>\<open>getPackage\<close>. Reading \<^verbatim>\<open>manifest.name\<close> throws when the manifest is \<open>undefined\<close> or
  \<open>null\<close>. The name of a package is a string here, as the \<^verbatim>\<open>Package\<close> type documents it
  and as \<^verbatim>\<open>getManifest\<close> checks it for a manifest read from a file; a pre-parsed
  manifest whose name is not a string is outside this typed model, which stops with a
  \<open>TypeError\<close> where JavaScript would carry the value along.
\<close>

definition fakeLogger :: jsval where
  "fakeLogger = JObj [(''error'', JFun ''error() {}''), (''log'', JFun ''log() {}'')]"

definition getPackage :: "collaborators \<Rightarrow> multiContext \<Rightarrow> jsval \<Rightarrow> error + package" where
  "getPackage C mc packageOrPath =
     (case resolvePackageOrPath C packageOrPath (cwd (mcSettings mc)) of
        Inl e \<Rightarrow> Inl e
      | Inr (dir', path', manifest') \<Rightarrow>
          (if manifest' = JUndefined \<or> manifest' = JNull
           then Inl (TypeError ''Cannot read properties of undefined (reading name)'')
           else case getProp manifest' ''name'' of
             JStr name' \<Rightarrow>
               (let deps' = depNames manifest';
                    pkgOptions = getConfig C dir';
                    final = finalOptions (globalOptions mc) pkgOptions (inputOptions mc);
                    (options', plugins') =
                       getConfigSemantic C ((mcSettings mc)\<lparr>cwd := dir'\<rparr>) final
                in Inr \<lparr>path = path', dir = dir', name = name', manifest = manifest',
                         deps = deps', options = options', plugins = plugins',
                         loggerRef = fakeLogger, localDeps = [], result = JUndefined\<rparr>)
           | _ \<Rightarrow> Inl (TypeError ''manifest.name is not a string'')))"

section \<open>The options a package is released with\<close>

text \<open>
  The synchronous part of \<^verbatim>\<open>releasePackage\<close> up to the call of the release engine:
  \<^verbatim>\<open>{ ...flags, ...pkgOptions, ...inlinePlugin }\<close>, then the two assignments to
  \<open>tagFormat\<close> and \<open>_pkgOptions\<close>.
\<close>

definition releaseOptions :: "jsobj \<Rightarrow> package \<Rightarrow> jsobj \<Rightarrow> jsobj" where
  "releaseOptions flags pkg inlinePlugin =
     (let pkgOptions = options pkg;
          options1 = assign (assign (assign [] flags) pkgOptions) inlinePlugin;
          options2 = AList.update ''tagFormat'' (JStr (name pkg @ ''@${version}'')) options1;
          options3 = AList.update ''_pkgOptions'' (JObj pkgOptions) options2
      in options3)"

text \<open>\<^verbatim>\<open>new RescopedStream(stream, name)\<close>: the stream of the run, scoped to a package.\<close>

definition rescopedStream :: "jsval \<Rightarrow> string \<Rightarrow> jsval" where
  "rescopedStream stream scope = JObj [(''stream'', stream), (''scope'', JStr scope)]"

definition releaseContext :: "multiContext \<Rightarrow> package \<Rightarrow> settings" where
  "releaseContext mc pkg =
     \<lparr>cwd = dir pkg, env = env (mcSettings mc),
      stdout = rescopedStream (stdout (mcSettings mc)) (name pkg),
      stderr = rescopedStream (stderr (mcSettings mc)) (name pkg)\<rparr>"

section \<open>Checking the parameters\<close>

text \<open>
  The shapes that \<^verbatim>\<open>check\<close> tests. \<^verbatim>\<open>string[]\<close> and \<^verbatim>\<open>objectlike[]\<close> are arrays all of
  whose elements, read by index up to the length, are strings or objects; an index name
  is a decimal numeral without leading zero. The elements of a dense array are as many
  as its index properties.
\<close>

definition isIndex :: "string \<Rightarrow> bool" where
  "isIndex k = (k \<noteq> [] \<and> list_all (\<lambda>c. c \<in> set ''0123456789'') k \<and> (k = ''0'' \<or> hd k \<noteq> CHR ''0''))"

definition arrayElems :: "jsval \<Rightarrow> jsval list" where
  "arrayElems v =
     (let ps = ownProps v
      in map (getOwn ps) (indexNames (length (filter (\<lambda>p. isIndex (fst p)) ps))))"

fun isString :: "jsval \<Rightarrow> bool" where
  "isString (JStr s) = True"
| "isString v = False"

fun isObjectlike :: "jsval \<Rightarrow> bool" where
  "isObjectlike (JObj ps) = True"
| "isObjectlike (JArr ps) = True"
| "isObjectlike v = False"

fun isArrayOf :: "(jsval \<Rightarrow> bool) \<Rightarrow> jsval \<Rightarrow> bool" where
  "isArrayOf P (JArr ps) = list_all P (arrayElems (JArr ps))"
| "isArrayOf P v = False"

text \<open>A destructuring default applies to a property that reads \<open>undefined\<close>.\<close>

definition orDefault :: "jsval \<Rightarrow> jsval \<Rightarrow> jsval" where
  "orDefault v d = (if v = JUndefined then d else v)"

definition withDefaults :: "collaborators \<Rightarrow> settings \<Rightarrow> settings" where
  "withDefaults C s =
     \<lparr>cwd = orDefault (cwd s) (processCwd C), env = orDefault (env s) (processEnv C),
      stdout = orDefault (stdout s) (processStdout C),
      stderr = orDefault (stderr s) (processStderr C)\<rparr>"

text \<open>
  Lines 68 to 79 of \<^verbatim>\<open>multiSemanticRelease\<close>, in their order: the first check that fails
  throws. A failed \<^verbatim>\<open>check\<close> throws a \<open>ValueError\<close>, named here by the description it
  was called with.
\<close>

definition checkParams :: "collaborators \<Rightarrow> jsval \<Rightarrow> jsval \<Rightarrow> settings \<Rightarrow> error option" where
  "checkParams C paths packageManifests s =
     (if truthy paths \<and> \<not> isArrayOf isString paths
        then Some (ValueError ''paths: string[]'')
      else if truthy packageManifests \<and> \<not> isArrayOf isObjectlike packageManifests
        then Some (ValueError ''packageManifests: objectlike[]'')
      else if \<not> truthy paths \<and> \<not> truthy packageManifests
        then Some (Error ''You have to provide either paths[] or packageManifests[]'')
      else if \<not> isDirectory C (cwd (withDefaults C s))
        then Some (ValueError ''cwd: directory'')
      else if \<not> isObjectlike (env (withDefaults C s))
        then Some (ValueError ''env: objectlike'')
      else if \<not> isStream C (stdout (withDefaults C s))
        then Some (ValueError ''stdout: stream'')
      else if \<not> isStream C (stderr (withDefaults C s))
        then Some (ValueError ''stderr: stream'')
      else None)"

section \<open>Local dependencies\<close>

text \<open>\<^verbatim>\<open>packages.find((p) => d === p.name)\<close> returns the first package object of that name,
  that is a reference to it: its position in \<^verbatim>\<open>packages\<close>.\<close>

fun findIndex :: "('a \<Rightarrow> bool) \<Rightarrow> 'a list \<Rightarrow> nat option" where
  "findIndex P [] = None"
| "findIndex P (x # xs) = (if P x then Some 0 else map_option Suc (findIndex P xs))"

text \<open>\<^verbatim>\<open>uniq\<close> of lodash keeps the first occurrence of every value.\<close>

definition uniq :: "'a list \<Rightarrow> 'a list" where
  "uniq xs = fold (\<lambda>x seen. if x \<in> set seen then seen else seen @ [x]) xs []"

text \<open>\<^verbatim>\<open>uniq(pkg.deps.map((d) => packages.find((p) => d === p.name)).filter(Boolean))\<close>:
  a name that no package has maps to \<open>undefined\<close> and is filtered out.\<close>

definition localDepsOf :: "package list \<Rightarrow> package \<Rightarrow> nat list" where
  "localDepsOf packages pkg =
     uniq (List.map_filter (\<lambda>d. findIndex (\<lambda>p. d = name p) packages) (deps pkg))"

definition linkLocalDeps :: "package list \<Rightarrow> package list" where
  "linkLocalDeps packages = map (\<lambda>pkg. pkg\<lparr>localDeps := localDepsOf packages pkg\<rparr>) packages"

section \<open>The cycle detector\<close>

text \<open>
  Modelled from the spec: \<^verbatim>\<open>isCyclicProject\<close> (\<^verbatim>\<open>lib/isCyclicProject.js\<close> is not among the
  sources). The spec describes a directed-cycle check over the dependency edges, for
  instance "Kahn's algorithm checking for a non-empty residual set", exposed as the
  predicate "graph contains at least one cycle". An edge leads from a package to each of
  its \<open>localDeps\<close>. One round removes every package that has no edge into the packages
  still present; what is left after as many rounds as there are packages is the residual
  set.
\<close>

definition depEdges :: "package list \<Rightarrow> (nat \<times> nat) set" where
  "depEdges packages =
     {(i, j). i < length packages \<and> j < length packages \<and> j \<in> set (localDeps (packages ! i))}"

definition pruneRound :: "package list \<Rightarrow> nat list \<Rightarrow> nat list" where
  "pruneRound packages present =
     filter (\<lambda>i. list_ex (\<lambda>j. j \<in> set present) (localDeps (packages ! i))) present"

definition residual :: "package list \<Rightarrow> nat list" where
  "residual packages =
     (pruneRound packages ^^ length packages) [0..<length packages]"

definition isCyclicProject :: "package list \<Rightarrow> bool" where
  "isCyclicProject packages = (residual packages \<noteq> [])"

section \<open>The synchronizer\<close>

text \<open>
  Modelled from the spec: the Synchronizer (\<^verbatim>\<open>lib/getSynchronizer.js\<close> is not among the
  sources). The spec gives it two operations keyed by a signal name and a unit. A claim
  is non-blocking; the first unit to claim a signal becomes its sole driver, whose turn
  has arrived, and later claimants are queued. An await suspends the task until the
  unit's turn for the signal has arrived; the turn of a queued unit arrives when it is
  released explicitly, which the intercepted pipeline of another unit does (see the
  schedule of a run). A unit is named by its position in \<^verbatim>\<open>packages\<close>.
\<close>

record synchronizer =
  drivers :: "(string \<times> nat) list"
  queued :: "(string \<times> nat) list"
  arrived :: "(string \<times> nat) list"

definition getSynchronizer :: synchronizer where
  "getSynchronizer = \<lparr>drivers = [], queued = [], arrived = []\<rparr>"

definition getLucky :: "string \<Rightarrow> nat \<Rightarrow> synchronizer \<Rightarrow> synchronizer" where
  "getLucky signal u s =
     (if signal \<in> fst ` set (drivers s)
      then s\<lparr>queued := queued s @ [(signal, u)]\<rparr>
      else s\<lparr>drivers := drivers s @ [(signal, u)], arrived := arrived s @ [(signal, u)]\<rparr>)"

definition hasArrived :: "string \<Rightarrow> nat \<Rightarrow> synchronizer \<Rightarrow> bool" where
  "hasArrived signal u s = ((signal, u) \<in> set (arrived s))"

definition releaseUnit :: "string \<Rightarrow> nat \<Rightarrow> synchronizer \<Rightarrow> synchronizer" where
  "releaseUnit signal u s =
     s\<lparr>queued := removeAll (signal, u) (queued s), arrived := arrived s @ [(signal, u)]\<rparr>"

section \<open>Releasing all packages\<close>

text \<open>
  What a run does to the world, in order: the lines it logs, the calls it makes to its
  collaborators and to the release engine, the assignments to \<^verbatim>\<open>pkg.result\<close>, and the
  rejection of a package's task.
\<close>

datatype level = Complete | Success | Failure

datatype event =
    Log level string
  | GetPackage jsval
  | GetSynchronizer
  | CreateInlinePluginCreator
  | GetLucky string nat
  | WaitFor string nat
  | CreateInlinePlugin nat
  | SemanticRelease nat jsobj settings
  | SetResult nat jsval
  | TaskRejected nat error

text \<open>
  The release engine resolves to \<open>false\<close> when it skipped the release and to a result
  object otherwise, or it rejects; a rejection is told from the errors of the
  orchestrator by its constructor \<open>PipelineError\<close>, which carries the reason.
\<close>

datatype release = Skipped | Released jsobj

fun resultValue :: "release \<Rightarrow> jsval" where
  "resultValue Skipped = JBool False"
| "resultValue (Released r) = JObj r"

text \<open>
  The tasks of \<^verbatim>\<open>packages.map(async (pkg) => ...)\<close> run interleaved on one thread. A task
  is suspended at \<^verbatim>\<open>await waitFor(...)\<close> or at \<^verbatim>\<open>await semanticRelease(...)\<close>, or it has
  ended. When and how a suspended task goes on is decided outside the code: the
  schedule of a run lists, in the order they happen, the releases of a unit waiting for
  \<open>_readyForRelease\<close> and the settlements of the release engine's promises. An
  occurrence that does not apply (the unit awaits nothing of the kind) changes nothing.
  The tasks are not cancelled when \<^verbatim>\<open>Promise.all\<close> rejects: the trace of a run holds what
  they do afterwards as well.
\<close>

datatype task = Unstarted | AwaitingSignal | AwaitingEngine | Fulfilled | Rejected error

datatype occurrence = Signals nat | Settles nat "string + release"

text \<open>\<open>joined\<close> is the promise of \<^verbatim>\<open>Promise.all\<close>: pending, rejected with the first
  rejection of a task, or fulfilled once every task is.\<close>

record state =
  packages :: "package list"
  tasks :: "task list"
  sync :: synchronizer
  joined :: "(error + unit) option"
  trace :: "event list"

definition readyForRelease :: string where
  "readyForRelease = ''_readyForRelease''"

text \<open>\<^verbatim>\<open>releasePackage\<close> up to its \<^verbatim>\<open>await\<close>: the inline plugin is made, the options are put
  together and the release engine is called.\<close>

definition startRelease :: "collaborators \<Rightarrow> multiContext \<Rightarrow> jsobj \<Rightarrow> nat \<Rightarrow> state \<Rightarrow> state" where
  "startRelease C mc flags i st =
     (let pkg = packages st ! i;
          inlinePlugin = createInlinePlugin C (packages st) flags pkg
      in st\<lparr>tasks := (tasks st)[i := AwaitingEngine],
            trace := trace st @
              [CreateInlinePlugin i,
               SemanticRelease i (releaseOptions flags pkg inlinePlugin) (releaseContext mc pkg)]\<rparr>)"

text \<open>The body of the task of package \<open>i\<close> up to its first \<^verbatim>\<open>await\<close>.\<close>

definition spawn :: "collaborators \<Rightarrow> multiContext \<Rightarrow> jsobj \<Rightarrow> nat \<Rightarrow> state \<Rightarrow> state" where
  "spawn C mc flags i st =
     (if truthy (getOwn flags ''sequentialInit'')
      then st\<lparr>sync := getLucky readyForRelease i (sync st),
              tasks := (tasks st)[i := AwaitingSignal],
              trace := trace st @ [GetLucky readyForRelease i, WaitFor readyForRelease i]\<rparr>
      else startRelease C mc flags i st)"

text \<open>A task that awaits a signal goes on once the turn of its unit has arrived.\<close>

definition wake :: "collaborators \<Rightarrow> multiContext \<Rightarrow> jsobj \<Rightarrow> nat \<Rightarrow> state \<Rightarrow> state" where
  "wake C mc flags i st =
     (if i < length (tasks st) \<and> tasks st ! i = AwaitingSignal
         \<and> hasArrived readyForRelease i (sync st)
      then startRelease C mc flags i st
      else st)"

text \<open>\<^verbatim>\<open>pkg.result = await semanticRelease(...)\<close>: the engine's promise settles. A
  rejection rejects the task, and \<^verbatim>\<open>Promise.all\<close> with it unless it is settled already;
  a value is assigned to \<open>result\<close> and the task is fulfilled.\<close>

definition settle :: "nat \<Rightarrow> string + release \<Rightarrow> state \<Rightarrow> state" where
  "settle i settlement st =
     (if i < length (tasks st) \<and> tasks st ! i = AwaitingEngine
      then (case settlement of
              Inl reason \<Rightarrow>
                st\<lparr>tasks := (tasks st)[i := Rejected (PipelineError reason)],
                   joined := (case joined st of
                                None \<Rightarrow> Some (Inl (PipelineError reason))
                              | Some j \<Rightarrow> Some j),
                   trace := trace st @ [TaskRejected i (PipelineError reason)]\<rparr>
            | Inr r \<Rightarrow>
                st\<lparr>packages := (packages st)[i := (packages st ! i)\<lparr>result := resultValue r\<rparr>],
                   tasks := (tasks st)[i := Fulfilled],
                   joined := (case joined st of
                                None \<Rightarrow> if list_all (\<lambda>t. t = Fulfilled) ((tasks st)[i := Fulfilled])
                                         then Some (Inr ()) else None
                              | Some j \<Rightarrow> Some j),
                   trace := trace st @ [SetResult i (resultValue r)]\<rparr>)
      else st)"

definition step :: "collaborators \<Rightarrow> multiContext \<Rightarrow> jsobj \<Rightarrow> occurrence \<Rightarrow> state \<Rightarrow> state" where
  "step C mc flags occ st =
     (case occ of
        Signals i \<Rightarrow> wake C mc flags i (st\<lparr>sync := releaseUnit readyForRelease i (sync st)\<rparr>)
      | Settles i settlement \<Rightarrow> settle i settlement st)"

text \<open>
  \<^verbatim>\<open>Promise.all(packages.map(async (pkg) => ...))\<close>: every task runs to its first
  \<^verbatim>\<open>await\<close> in the order of \<^verbatim>\<open>packages\<close>, a task whose signal has arrived already goes on,
  and then the schedule decides. \<^verbatim>\<open>Promise.all\<close> of no task at all is fulfilled at once.
\<close>

definition initialState :: "package list \<Rightarrow> state" where
  "initialState pkgs =
     \<lparr>packages = pkgs, tasks = replicate (length pkgs) Unstarted,
      sync = getSynchronizer,
      joined = (if pkgs = [] then Some (Inr ()) else None), trace = []\<rparr>"

definition spawnAll :: "collaborators \<Rightarrow> multiContext \<Rightarrow> jsobj \<Rightarrow> package list \<Rightarrow> state" where
  "spawnAll C mc flags pkgs =
     fold (wake C mc flags) [0..<length pkgs]
       (fold (spawn C mc flags) [0..<length pkgs] (initialState pkgs))"

definition releaseAll ::
  "collaborators \<Rightarrow> multiContext \<Rightarrow> jsobj \<Rightarrow> package list \<Rightarrow> occurrence list \<Rightarrow> state" where
  "releaseAll C mc flags pkgs schedule = fold (step C mc flags) schedule (spawnAll C mc flags pkgs)"

section \<open>The orchestrator\<close>

text \<open>\<^verbatim>\<open>Promise.all(sources.map((pkg) => getPackage(pkg, multiContext)))\<close>: every source is
  loaded; a failure happens before the first \<^verbatim>\<open>await\<close> of \<^verbatim>\<open>getPackage\<close>, so the first
  source that fails rejects the whole.\<close>

fun allOrFirstError :: "(error + 'a) list \<Rightarrow> error + 'a list" where
  "allOrFirstError [] = Inr []"
| "allOrFirstError (Inl e # rs) = Inl e"
| "allOrFirstError (Inr x # rs) = (case allOrFirstError rs of Inl e \<Rightarrow> Inl e | Inr xs \<Rightarrow> Inr (x # xs))"

text \<open>What the promise that \<^verbatim>\<open>multiSemanticRelease\<close> returns comes to: it rejects, it
  resolves to the packages, or it is still pending when the schedule ends. The events
  of a run are those of the whole process, also those of tasks that go on after the
  promise has rejected.\<close>

datatype outcome = Rejects error | Resolves "package list" | Pending

record run =
  outcome :: outcome
  events :: "event list"

definition cyclicMessage :: string where
  "cyclicMessage = ''There is a cyclic dependency in packages while the sequentialPrepare is enabled''"

definition cyclicError :: error where
  "cyclicError = ValueError (''can'' @ [CHR 0x27] @ ''t have cyclic with sequentialPrepare option'')"

definition startedMessage :: "nat \<Rightarrow> string" where
  "startedMessage n = ''Started multirelease! Loading '' @ showNat n @ '' packages...''"

definition loadedMessage :: "package \<Rightarrow> string" where
  "loadedMessage pkg = ''Loaded package '' @ name pkg"

definition queuedMessage :: "nat \<Rightarrow> string" where
  "queuedMessage n = ''Queued '' @ showNat n @ '' packages! Starting release...''"

definition releasedMessage :: "nat \<Rightarrow> nat \<Rightarrow> string" where
  "releasedMessage released n =
     ''Released '' @ showNat released @ '' of '' @ showNat n @ '' packages, semantically!''"

text \<open>\<^verbatim>\<open>const sources = paths || packageManifests\<close>, as the list that \<^verbatim>\<open>sources.map\<close> runs
  over.\<close>

definition sourcesOf :: "jsval \<Rightarrow> jsval \<Rightarrow> jsval list" where
  "sourcesOf paths packageManifests =
     arrayElems (if truthy paths then paths else packageManifests)"

text \<open>\<^verbatim>\<open>cwd = cleanPath(cwd)\<close>, \<^verbatim>\<open>globalOptions = await getConfig(cwd)\<close> and \<^verbatim>\<open>multiContext\<close>.\<close>

definition contextOf :: "collaborators \<Rightarrow> jsobj \<Rightarrow> settings \<Rightarrow> multiContext" where
  "contextOf C inputOptions' settings' =
     (let s = withDefaults C settings';
          cwd' = cleanPath C (cwd s) JUndefined
      in \<lparr>globalOptions = getConfig C cwd', inputOptions = inputOptions',
          mcSettings = s\<lparr>cwd := cwd'\<rparr>\<rparr>)"

definition loadPackages :: "collaborators \<Rightarrow> multiContext \<Rightarrow> jsval list \<Rightarrow> error + package list" where
  "loadPackages C mc sources = allOrFirstError (map (getPackage C mc) sources)"

text \<open>The events up to the cycle check: the start, one call of \<^verbatim>\<open>getPackage\<close> for each
  source, and the line logged for each package in \<^verbatim>\<open>packages.forEach\<close>.\<close>

definition loadingEvents :: "jsval list \<Rightarrow> event list" where
  "loadingEvents sources = Log Complete (startedMessage (length sources)) # map GetPackage sources"

definition linkedEvents :: "package list \<Rightarrow> event list" where
  "linkedEvents pkgs = map (\<lambda>pkg. Log Success (loadedMessage pkg)) pkgs"

definition queuedEvents :: "package list \<Rightarrow> event list" where
  "queuedEvents pkgs =
     [Log Complete (queuedMessage (length pkgs)), GetSynchronizer, CreateInlinePluginCreator]"

text \<open>From \<^verbatim>\<open>await Promise.all(...)\<close> on: nothing more happens while the promise is pending,
  its rejection is thrown on, and once it is fulfilled the released packages are counted
  and the packages are returned.\<close>

definition finish :: "event list \<Rightarrow> state \<Rightarrow> run" where
  "finish earlier st =
     (case joined st of
        None \<Rightarrow> \<lparr>outcome = Pending, events = earlier @ trace st\<rparr>
      | Some (Inl e) \<Rightarrow> \<lparr>outcome = Rejects e, events = earlier @ trace st\<rparr>
      | Some (Inr u) \<Rightarrow>
          (let released = length (filter (\<lambda>pkg. truthy (result pkg)) (packages st))
           in \<lparr>outcome = Resolves (packages st),
                events = earlier @ trace st @
                  [Log Complete (releasedMessage released (length (packages st)))]\<rparr>))"

definition multiSemanticRelease ::
  "collaborators \<Rightarrow> jsval \<Rightarrow> jsval \<Rightarrow> jsobj \<Rightarrow> settings \<Rightarrow> jsobj \<Rightarrow> occurrence list \<Rightarrow> run" where
  "multiSemanticRelease C paths packageManifests inputOptions' settings' flags schedule =
     (case checkParams C paths packageManifests settings' of
        Some e \<Rightarrow> \<lparr>outcome = Rejects e, events = []\<rparr>
      | None \<Rightarrow>
          (let sources = sourcesOf paths packageManifests;
               mc = contextOf C inputOptions' settings'
           in case loadPackages C mc sources of
                Inl e \<Rightarrow> \<lparr>outcome = Rejects e, events = loadingEvents sources\<rparr>
              | Inr loaded \<Rightarrow>
                  (let pkgs = linkLocalDeps loaded
                   in if truthy (getOwn flags ''sequentialPrepare'') \<and> isCyclicProject pkgs
                      then \<lparr>outcome = Rejects cyclicError,
                            events = loadingEvents sources @ linkedEvents pkgs @
                              [Log Failure cyclicMessage]\<rparr>
                      else finish (loadingEvents sources @ linkedEvents pkgs @ queuedEvents pkgs)
                             (releaseAll C mc flags pkgs schedule))))"

section \<open>The flags of the command line\<close>

text \<open>
  \<^verbatim>\<open>String.prototype.split\<close> with a separator of one character.
\<close>

fun splitOn :: "char \<Rightarrow> string \<Rightarrow> string list" where
  "splitOn sep [] = [[]]"
| "splitOn sep (c # cs) =
     (if c = sep then [] # splitOn sep cs
      else (case splitOn sep cs of [] \<Rightarrow> [[c]] | w # ws \<Rightarrow> (c # w) # ws))"

text \<open>
  \<^verbatim>\<open>set(object, path, value)\<close> of lodash, for a path given as a string: the string is
  split at its dots, the value is stored under the last name, and on the way every
  property that does not hold an object yet is given a new one, an array when the next
  name is an index and a plain object otherwise. A path that names \<open>__proto__\<close>,
  \<open>constructor\<close> or \<open>prototype\<close> stops where it meets that name. Three features of lodash
  are left out: the bracket syntax of paths (\<^verbatim>\<open>a[0].b\<close>), properties inherited from
  \<^verbatim>\<open>Object.prototype\<close>, and properties of functions, which count as objects in lodash
  and are replaced like a primitive here. (lodash first tests whether the whole string
  names a property of the object already; the object that \<^verbatim>\<open>processFlags\<close> builds never
  has a property with a dot in its name.)
\<close>

definition toPath :: "string \<Rightarrow> string list" where
  "toPath k = splitOn (CHR ''.'') k"

definition unsafeKey :: "string \<Rightarrow> bool" where
  "unsafeKey k = (k = ''__proto__'' \<or> k = ''constructor'' \<or> k = ''prototype'')"

fun assignValue :: "string \<Rightarrow> jsval \<Rightarrow> jsval \<Rightarrow> jsval" where
  "assignValue k v (JObj ps) = JObj (AList.update k v ps)"
| "assignValue k v (JArr ps) = JArr (AList.update k v ps)"
| "assignValue k v nested = nested"

fun baseSet :: "string list \<Rightarrow> jsval \<Rightarrow> jsval \<Rightarrow> jsval" where
  "baseSet [] v nested = nested"
| "baseSet [k] v nested = (if unsafeKey k then nested else assignValue k v nested)"
| "baseSet (k # k' # ks) v nested =
     (if unsafeKey k then nested
      else (let objValue = getProp nested k;
                newValue = (if isObjectlike objValue then objValue
                            else if isIndex k' then JArr [] else JObj [])
            in assignValue k (baseSet (k' # ks) v newValue) nested))"

definition lodashSet :: "jsval \<Rightarrow> string \<Rightarrow> jsval \<Rightarrow> jsval" where
  "lodashSet object' path' v = baseSet (toPath path') v object'"

text \<open>\<^verbatim>\<open>v.split(",")\<close>: only a string has the method.\<close>

fun splitCommas :: "jsval \<Rightarrow> error + jsval" where
  "splitCommas (JStr s) = Inr (jsArray (map JStr (splitOn (CHR '','') s)))"
| "splitCommas v = Inl (TypeError ''v.split is not a function'')"

text \<open>\<^verbatim>\<open>processFlags\<close>: \<^verbatim>\<open>toPairs(flags).reduce(..., {})\<close>.\<close>

definition processFlag :: "error + jsval \<Rightarrow> string \<times> jsval \<Rightarrow> error + jsval" where
  "processFlag acc kv =
     (case acc of
        Inl e \<Rightarrow> Inl e
      | Inr m \<Rightarrow>
          (if fst kv = ''ignorePackages'' \<and> truthy (snd kv)
           then (case splitCommas (snd kv) of
                   Inl e \<Rightarrow> Inl e
                 | Inr parts \<Rightarrow> Inr (lodashSet m (fst kv) parts))
           else Inr (lodashSet m (fst kv) (snd kv))))"

definition processFlags :: "jsobj \<Rightarrow> error + jsval" where
  "processFlags flags = foldl processFlag (Inr (JObj [])) flags"

text \<open>Reading a value back along a path: \<^verbatim>\<open>m.deps.bump\<close> is \<open>getPath [''deps'', ''bump''] m\<close>.\<close>

fun getPath :: "string list \<Rightarrow> jsval \<Rightarrow> jsval" where
  "getPath [] v = v"
| "getPath (k # ks) v = getPath ks (getProp v k)"

section \<open>Reading a trace\<close>

text \<open>The error of the first task that was rejected, the assignments to the \<open>result\<close> of
  one package, and the two calls of the gate of \<open>sequentialInit\<close>.\<close>

fun firstRejection :: "event list \<Rightarrow> error option" where
  "firstRejection [] = None"
| "firstRejection (TaskRejected i e # es) = Some e"
| "firstRejection (ev # es) = firstRejection es"

fun isSetResult :: "nat \<Rightarrow> event \<Rightarrow> bool" where
  "isSetResult i (SetResult j v) = (j = i)"
| "isSetResult i ev = False"

definition writesOf :: "nat \<Rightarrow> event list \<Rightarrow> event list" where
  "writesOf i es = filter (isSetResult i) es"

fun isGate :: "event \<Rightarrow> bool" where
  "isGate (GetLucky signal i) = True"
| "isGate (WaitFor signal i) = True"
| "isGate ev = False"

fun isEngineCall :: "nat \<Rightarrow> event \<Rightarrow> bool" where
  "isEngineCall i (SemanticRelease j opts ctx) = (j = i)"
| "isEngineCall i ev = False"

definition gates :: "nat \<Rightarrow> event list" where
  "gates n = concat (map (\<lambda>i. [GetLucky readyForRelease i, WaitFor readyForRelease i]) [0..<n])"

section \<open>Example inputs\<close>

text \<open>
  A repository at \<open>/repo\<close> whose global configuration sets \<open>dryRun\<close> to \<open>false\<close>, with
  collaborators that return the options they are given, and pre-parsed manifests: \<open>pkg-a\<close>
  depends on \<open>pkg-b\<close> and on the external \<open>lodash\<close>, \<open>pkg-b\<close> depends on \<open>pkg-a\<close>, and
  \<open>pkg-s\<close> lists itself among its dependencies.
\<close>

definition exampleStdout :: jsval where
  "exampleStdout = JObj [(''fd'', JNum 1)]"

definition exampleStderr :: jsval where
  "exampleStderr = JObj [(''fd'', JNum 2)]"

definition exampleInlinePlugin :: jsobj where
  "exampleInlinePlugin =
     [(''verifyConditions'', JFun ''verifyConditions''), (''analyzeCommits'', JFun ''analyzeCommits'')]"

definition exampleCollaborators :: collaborators where
  "exampleCollaborators =
     \<lparr>isDirectory = (\<lambda>v. v = JStr ''/repo''),
      isStream = (\<lambda>v. v = exampleStdout \<or> v = exampleStderr),
      processCwd = JStr ''/repo'',
      processEnv = JObj [],
      processStdout = exampleStdout,
      processStderr = exampleStderr,
      cleanPath = (\<lambda>p c. p),
      dirname = (\<lambda>p. p),
      getManifest = (\<lambda>p. JUndefined),
      getConfig = (\<lambda>d. if d = JStr ''/repo'' then [(''dryRun'', JBool False)] else []),
      getConfigSemantic = (\<lambda>ctx opts. (opts, JNull)),
      createInlinePlugin = (\<lambda>pkgs flags pkg. exampleInlinePlugin)\<rparr>"

definition exampleSettings :: settings where
  "exampleSettings = \<lparr>cwd = JUndefined, env = JUndefined, stdout = JUndefined, stderr = JUndefined\<rparr>"

definition exampleA :: jsval where
  "exampleA =
     JObj [(''dir'', JStr ''/repo/a''),
           (''manifest'', JObj [(''name'', JStr ''pkg-a''),
              (''dependencies'', JObj [(''pkg-b'', JStr ''^1.0.0''), (''lodash'', JStr ''^4.17.0'')])])]"

definition exampleB :: jsval where
  "exampleB =
     JObj [(''dir'', JStr ''/repo/b''),
           (''manifest'', JObj [(''name'', JStr ''pkg-b''),
              (''devDependencies'', JObj [(''pkg-a'', JStr ''^1.0.0'')])])]"

definition exampleS :: jsval where
  "exampleS =
     JObj [(''dir'', JStr ''/repo/s''),
           (''manifest'', JObj [(''name'', JStr ''pkg-s''),
              (''peerDependencies'', JObj [(''pkg-s'', JStr ''*'')])])]"

definition exampleManifests :: jsval where
  "exampleManifests = jsArray [exampleA, exampleB]"

definition exampleContext :: multiContext where
  "exampleContext = contextOf exampleCollaborators [] exampleSettings"

text \<open>The packages that \<^verbatim>\<open>getPackage\<close> makes of the three manifests.\<close>

definition examplePackage :: "string \<Rightarrow> string \<Rightarrow> jsval \<Rightarrow> string list \<Rightarrow> package" where
  "examplePackage n d m ds =
     \<lparr>path = JUndefined, dir = JStr d, name = n, manifest = m, deps = ds,
      options = [(''dryRun'', JBool False)], plugins = JNull, loggerRef = fakeLogger,
      localDeps = [], result = JUndefined\<rparr>"

definition packageA :: package where
  "packageA = examplePackage ''pkg-a'' ''/repo/a'' (getProp exampleA ''manifest'') [''pkg-b'', ''lodash'']"

definition packageB :: package where
  "packageB = examplePackage ''pkg-b'' ''/repo/b'' (getProp exampleB ''manifest'') [''pkg-a'']"

definition packageS :: package where
  "packageS = examplePackage ''pkg-s'' ''/repo/s'' (getProp exampleS ''manifest'') [''pkg-s'']"

text \<open>Flags as the command line gives them, and two flags whose names collide.\<close>

definition exampleFlags :: jsobj where
  "exampleFlags =
     [(''sequentialInit'', JBool True), (''deps.bump'', JStr ''override''),
      (''deps.release'', JStr ''patch''), (''ignorePackages'', JStr ''a,b'')]"

definition collidingFlags :: jsobj where
  "collidingFlags = [(''deps'', JStr ''x''), (''deps.bump'', JStr ''override'')]"

section \<open>Auxiliary definitions\<close>

text \<open>
  Invariants of the task state machine, classifications of events, and the example runs that
  the properties below are stated with.
\<close>

text \<open>What the joined promise of \<^verbatim>\<open>Promise.all\<close> is, read off the tasks and the trace: rejected with the
  first rejection, resolved once every task is fulfilled, pending otherwise.\<close>

definition joinedOf :: "state \<Rightarrow> (error + unit) option" where
  "joinedOf st =
     (case firstRejection (trace st) of
        Some e \<Rightarrow> Some (Inl e)
      | None \<Rightarrow> if list_all (\<lambda>t. t = Fulfilled) (tasks st) then Some (Inr ()) else None)"

text \<open>The writes to \<^verbatim>\<open>pkg.result\<close>: a package whose task is fulfilled has been written once, with the
  value it now holds, and every other package is as it was loaded.\<close>

definition resultInv :: "package list \<Rightarrow> state \<Rightarrow> bool" where
  "resultInv pkgs st =
     (length (packages st) = length pkgs \<and>
      (\<forall>i. writesOf i (trace st) =
         (if i < length pkgs \<and> tasks st ! i = Fulfilled
          then [SetResult i (result (packages st ! i))] else [])) \<and>
      (\<forall>i < length pkgs.
         packages st ! i = (pkgs ! i)\<lparr>result := result (packages st ! i)\<rparr> \<and>
         (if tasks st ! i = Fulfilled then \<exists>x. result (packages st ! i) = resultValue x
          else result (packages st ! i) = result (pkgs ! i))))"

text \<open>The events of a task that starts its release: the inline plugin is made and the release
  engine is called.\<close>

definition startEvents :: "collaborators \<Rightarrow> multiContext \<Rightarrow> jsobj \<Rightarrow> package list \<Rightarrow> nat \<Rightarrow> event list" where
  "startEvents C mc flags pkgs i =
     [CreateInlinePlugin i,
      SemanticRelease i
        (releaseOptions flags (pkgs ! i) (createInlinePlugin C pkgs flags (pkgs ! i)))
        (releaseContext mc (pkgs ! i))]"

text \<open>Under \<^verbatim>\<open>sequentialInit\<close> the release engine has been called exactly for the first package and
  for the packages that were signalled.\<close>

definition gateInv :: "package list \<Rightarrow> occurrence list \<Rightarrow> state \<Rightarrow> bool" where
  "gateInv pkgs sch st =
     (length (tasks st) = length pkgs \<and>
      (\<forall>i. list_ex (isEngineCall i) (trace st) = (i < length pkgs \<and> (i = 0 \<or> Signals i \<in> set sch))) \<and>
      (\<forall>i < length pkgs. (tasks st ! i = AwaitingSignal) = (\<not> (i = 0 \<or> Signals i \<in> set sch))) \<and>
      (\<forall>i. hasArrived readyForRelease i (sync st) = (pkgs \<noteq> [] \<and> i = 0 \<or> Signals i \<in> set sch)))"

text \<open>Every call of the release engine is made for a package of the run, with the options and the
  context that \<^verbatim>\<open>releasePackage\<close> builds for it.\<close>

definition callsInv :: "collaborators \<Rightarrow> multiContext \<Rightarrow> jsobj \<Rightarrow> package list \<Rightarrow> state \<Rightarrow> bool" where
  "callsInv C mc flags pkgs st =
     (\<forall>j opts ctx. SemanticRelease j opts ctx \<in> set (trace st) \<longrightarrow>
        j < length pkgs \<and> ctx = releaseContext mc (pkgs ! j) \<and>
        (\<exists>ps. opts = releaseOptions flags (pkgs ! j) (createInlinePlugin C ps flags (pkgs ! j))))"

text \<open>The events that the release tasks add to the trace.\<close>

fun isTaskEvent :: "event \<Rightarrow> bool" where
  "isTaskEvent (GetLucky g i) = True"
| "isTaskEvent (WaitFor g i) = True"
| "isTaskEvent (CreateInlinePlugin i) = True"
| "isTaskEvent (SemanticRelease i opts ctx) = True"
| "isTaskEvent (SetResult i v) = True"
| "isTaskEvent (TaskRejected i (PipelineError reason)) = True"
| "isTaskEvent ev = False"

text \<open>The events that the orchestrator itself adds before the summary line.\<close>

definition isOrchestratorEvent :: "event \<Rightarrow> bool" where
  "isOrchestratorEvent ev =
     (case ev of Log l m \<Rightarrow> l \<noteq> Complete \<or> hd m \<noteq> CHR ''R'' | GetPackage v \<Rightarrow> True
      | GetSynchronizer \<Rightarrow> True | CreateInlinePluginCreator \<Rightarrow> True | _ \<Rightarrow> False)"

text \<open>Flag paths of which none is a prefix of another, so that no flag is stored inside or over
  another one.\<close>

fun independentPaths :: "string list list \<Rightarrow> bool" where
  "independentPaths [] = True"
| "independentPaths (p # ps) =
     (list_all (\<lambda>q. \<not> prefix p q \<and> \<not> prefix q p) ps \<and> independentPaths ps)"

text \<open>The value that \<^verbatim>\<open>processFlags\<close> stores for a flag.\<close>

definition storedValue :: "string \<Rightarrow> jsval \<Rightarrow> jsval" where
  "storedValue k v =
     (if k = ''ignorePackages'' \<and> truthy v
      then (case v of JStr s \<Rightarrow> jsArray (map JStr (splitOn (CHR '','') s)) | _ \<Rightarrow> v)
      else v)"

text \<open>The events of loading: log lines and calls of \<^verbatim>\<open>getPackage\<close>.\<close>

fun isLoadEvent :: "event \<Rightarrow> bool" where
  "isLoadEvent (Log l m) = True"
| "isLoadEvent (GetPackage v) = True"
| "isLoadEvent ev = False"

text \<open>Flag names that lodash reads as dot-separated keys: no brackets, and no segment that
  \<^verbatim>\<open>set\<close> refuses to write.\<close>

definition plainName :: "string \<Rightarrow> bool" where
  "plainName k = (list_all (\<lambda>c. c \<noteq> CHR ''['' \<and> c \<noteq> CHR '']'') k \<and>
                  list_all (\<lambda>seg. \<not> unsafeKey seg) (toPath k))"

text \<open>The two example packages after their local dependencies are linked, a schedule in which
  the pipeline of the first fails, and one in which both settle.\<close>

definition examplePackages :: "package list" where
  "examplePackages = linkLocalDeps [packageA, packageB]"

definition failingSchedule :: "occurrence list" where
  "failingSchedule = [Settles 0 (Inl ''boom''), Settles 1 (Inr Skipped)]"

definition passingSchedule :: "occurrence list" where
  "passingSchedule = [Settles 0 (Inr (Released [])), Settles 1 (Inr Skipped)]"

text \<open>The first settlement of the release of package \<open>i\<close> in a schedule.\<close>

fun firstSettlement :: "nat \<Rightarrow> occurrence list \<Rightarrow> (string + release) option" where
  "firstSettlement i [] = None"
| "firstSettlement i (Signals j # sch) = firstSettlement i sch"
| "firstSettlement i (Settles j x # sch) = (if j = i then Some x else firstSettlement i sch)"

text \<open>Under \<^verbatim>\<open>sequentialInit\<close> every package but the first one waits for its signal.\<close>

definition gated :: "jsobj \<Rightarrow> nat \<Rightarrow> bool" where
  "gated flags i = (truthy (getOwn flags ''sequentialInit'') \<and> i \<noteq> 0)"

text \<open>Whether the task of package \<open>i\<close> has called the release engine by the end of a schedule.\<close>

definition started :: "jsobj \<Rightarrow> nat \<Rightarrow> occurrence list \<Rightarrow> bool" where
  "started flags i sch = (if gated flags i then Signals i \<in> set sch else True)"

text \<open>What happens once the task of package \<open>i\<close> has called the release engine: the whole
  schedule, or, for a package that waits, what follows its first signal.\<close>

definition sinceStart :: "jsobj \<Rightarrow> nat \<Rightarrow> occurrence list \<Rightarrow> occurrence list" where
  "sinceStart flags i sch =
     (if gated flags i then drop 1 (dropWhile (\<lambda>occ. occ \<noteq> Signals i) sch) else sch)"

text \<open>How the release of package \<open>i\<close> settles in a run: the first settlement of its
  promise after the task has called the release engine, if there is one.\<close>

definition settlementOf :: "jsobj \<Rightarrow> nat \<Rightarrow> occurrence list \<Rightarrow> (string + release) option" where
  "settlementOf flags i sch = firstSettlement i (sinceStart flags i sch)"

text \<open>The task of package \<open>i\<close> at the end of a schedule, read off the schedule alone.\<close>

definition taskAfter :: "jsobj \<Rightarrow> nat \<Rightarrow> occurrence list \<Rightarrow> task" where
  "taskAfter flags i sch =
     (case settlementOf flags i sch of
        None \<Rightarrow> if started flags i sch then AwaitingEngine else AwaitingSignal
      | Some (Inl reason) \<Rightarrow> Rejected (PipelineError reason)
      | Some (Inr r) \<Rightarrow> Fulfilled)"

text \<open>The result of package \<open>i\<close> at the end of a schedule, when it was \<open>v\<close> at the start.\<close>

definition resultAfter :: "jsobj \<Rightarrow> nat \<Rightarrow> occurrence list \<Rightarrow> jsval \<Rightarrow> jsval" where
  "resultAfter flags i sch v =
     (case settlementOf flags i sch of Some (Inr r) \<Rightarrow> resultValue r | _ \<Rightarrow> v)"

text \<open>What one occurrence does to the task and to the result of package \<open>i\<close>.\<close>

fun unitStep :: "nat \<Rightarrow> occurrence \<Rightarrow> task \<times> jsval \<Rightarrow> task \<times> jsval" where
  "unitStep i (Signals j) (t, v) =
     (if j = i \<and> t = AwaitingSignal then (AwaitingEngine, v) else (t, v))"
| "unitStep i (Settles j x) (t, v) =
     (if j = i \<and> t = AwaitingEngine
      then (case x of Inl reason \<Rightarrow> (Rejected (PipelineError reason), v)
                    | Inr r \<Rightarrow> (Fulfilled, resultValue r))
      else (t, v))"

text \<open>The rejections in the trace are those of the tasks that are rejected.\<close>

definition rejectionInv :: "package list \<Rightarrow> state \<Rightarrow> bool" where
  "rejectionInv pkgs st =
     (\<forall>i e. TaskRejected i e \<in> set (trace st) \<longleftrightarrow> i < length pkgs \<and> tasks st ! i = Rejected e)"

text \<open>Two manifests of the same name \<open>dup\<close>, the second of which lists \<open>dup\<close> among its
  dependencies, a third package that depends on \<open>dup\<close>, and the packages loaded from them.\<close>

definition exampleD1 :: jsval where
  "exampleD1 = JObj [(''dir'', JStr ''/repo/d1''), (''manifest'', JObj [(''name'', JStr ''dup'')])]"

definition exampleD2 :: jsval where
  "exampleD2 =
     JObj [(''dir'', JStr ''/repo/d2''),
           (''manifest'', JObj [(''name'', JStr ''dup''),
              (''dependencies'', JObj [(''dup'', JStr ''^1.0.0'')])])]"

definition exampleC :: jsval where
  "exampleC =
     JObj [(''dir'', JStr ''/repo/c''),
           (''manifest'', JObj [(''name'', JStr ''pkg-c''),
              (''dependencies'', JObj [(''dup'', JStr ''^1.0.0'')])])]"

definition duplicatePackages :: "package list" where
  "duplicatePackages =
     [examplePackage ''dup'' ''/repo/d1'' (getProp exampleD1 ''manifest'') [],
      examplePackage ''dup'' ''/repo/d2'' (getProp exampleD2 ''manifest'') [''dup''],
      examplePackage ''pkg-c'' ''/repo/c'' (getProp exampleC ''manifest'') [''dup'']]"

section \<open>Merging objects\<close>

lemma map_of_assign_rev: "map_of (assign t s) = map_of t ++ map_of (rev s)"
  unfolding assign_def
proof (induction s arbitrary: t)
  case Nil
  then show ?case by simp
next
  case (Cons a s)
  obtain k v where a: "a = (k, v)" by (cases a)
  have "map_of (AList.update k v t) ++ map_of (rev s) = map_of t ++ [k \<mapsto> v] ++ map_of (rev s)"
    by (simp only: update_conv' map_add_upd map_add_empty)
  then show ?case
    by (simp only: a fold_simps case_prod_conv Cons.IH rev.simps map_of_append map_of.simps fst_conv snd_conv map_add_assoc)
qed

lemma map_of_rev_distinct: "distinct (map fst s) \<Longrightarrow> map_of (rev s) = map_of s"
  by (subst map_of_inject_set) (simp_all add: rev_map [symmetric])

lemma map_of_assign:
  "distinct (map fst s) \<Longrightarrow> map_of (assign t s) = map_of t ++ map_of s"
  by (simp add: map_of_assign_rev map_of_rev_distinct)

lemma getOwn_update_same: "getOwn (AList.update k v ps) k = v"
  by (simp add: getOwn_def update_conv')

lemma getOwn_update_other: "k' \<noteq> k \<Longrightarrow> getOwn (AList.update k v ps) k' = getOwn ps k'"
  by (simp add: getOwn_def update_conv')

section \<open>Induction over a schedule\<close>

lemma length_tasks_startRelease [simp]:
  "length (tasks (startRelease C mc flags i st)) = length (tasks st)"
  by (simp add: startRelease_def Let_def)

lemma length_tasks_spawn [simp]:
  "length (tasks (spawn C mc flags i st)) = length (tasks st)"
  by (simp add: spawn_def)

lemma length_tasks_wake [simp]:
  "length (tasks (wake C mc flags i st)) = length (tasks st)"
  by (simp add: wake_def)

lemma length_tasks_settle [simp]:
  "length (tasks (settle i res st)) = length (tasks st)"
  by (simp add: settle_def split: sum.splits)

lemma length_tasks_step [simp]:
  "length (tasks (step C mc flags occ st)) = length (tasks st)"
  by (simp add: step_def split: occurrence.splits)

lemma tasks_startRelease:
  "tasks (startRelease C mc flags i st) = (tasks st)[i := AwaitingEngine]"
  by (simp add: startRelease_def Let_def)

lemma spawn_phase:
  assumes init: "P (initialState pkgs)"
    and start: "\<And>i st. P st \<Longrightarrow> length (tasks st) = length pkgs \<Longrightarrow> i < length pkgs \<Longrightarrow>
        tasks st ! i = Unstarted \<or> tasks st ! i = AwaitingSignal \<Longrightarrow>
        P (startRelease C mc flags i st)"
    and gate: "\<And>i st. P st \<Longrightarrow> length (tasks st) = length pkgs \<Longrightarrow> i < length pkgs \<Longrightarrow>
        tasks st ! i = Unstarted \<Longrightarrow>
        P (st\<lparr>sync := getLucky readyForRelease i (sync st),
              tasks := (tasks st)[i := AwaitingSignal],
              trace := trace st @ [GetLucky readyForRelease i, WaitFor readyForRelease i]\<rparr>)"
  shows "k \<le> length pkgs \<Longrightarrow>
     P (fold (spawn C mc flags) [0..<k] (initialState pkgs)) \<and>
     length (tasks (fold (spawn C mc flags) [0..<k] (initialState pkgs))) = length pkgs \<and>
     (\<forall>j. k \<le> j \<and> j < length pkgs \<longrightarrow>
        tasks (fold (spawn C mc flags) [0..<k] (initialState pkgs)) ! j = Unstarted)"
proof (induction k)
  case 0
  then show ?case using init by (simp add: initialState_def)
next
  case (Suc k)
  let ?st = "fold (spawn C mc flags) [0..<k] (initialState pkgs)"
  from Suc have IH: "P ?st" "length (tasks ?st) = length pkgs"
    "\<forall>j. k \<le> j \<and> j < length pkgs \<longrightarrow> tasks ?st ! j = Unstarted" and k: "k < length pkgs"
    by simp_all
  have un: "tasks ?st ! k = Unstarted" using IH(3) k by simp
  have P': "P (spawn C mc flags k ?st)"
    using start [OF IH(1,2) k] gate [OF IH(1,2) k un] un by (simp add: spawn_def)
  have rest: "\<forall>j. Suc k \<le> j \<and> j < length pkgs \<longrightarrow> tasks (spawn C mc flags k ?st) ! j = Unstarted"
    using IH(3) by (simp add: spawn_def tasks_startRelease)
  show ?case using P' rest IH(2) by simp
qed

lemma fold_wake:
  assumes "P st \<and> length (tasks st) = n"
    and "\<And>i st. P st \<Longrightarrow> length (tasks st) = n \<Longrightarrow> P (wake C mc flags i st)"
  shows "P (fold (wake C mc flags) is st) \<and> length (tasks (fold (wake C mc flags) is st)) = n"
  using assms(1)
proof (induction "is" arbitrary: st)
  case Nil
  then show ?case by simp
next
  case (Cons i "is")
  then show ?case using assms(2) by simp
qed

lemma releaseAll_induct:
  assumes init: "P (initialState pkgs)"
    and start: "\<And>i st. P st \<Longrightarrow> length (tasks st) = length pkgs \<Longrightarrow> i < length pkgs \<Longrightarrow>
        tasks st ! i = Unstarted \<or> tasks st ! i = AwaitingSignal \<Longrightarrow>
        P (startRelease C mc flags i st)"
    and gate: "\<And>i st. P st \<Longrightarrow> length (tasks st) = length pkgs \<Longrightarrow> i < length pkgs \<Longrightarrow>
        tasks st ! i = Unstarted \<Longrightarrow>
        P (st\<lparr>sync := getLucky readyForRelease i (sync st),
              tasks := (tasks st)[i := AwaitingSignal],
              trace := trace st @ [GetLucky readyForRelease i, WaitFor readyForRelease i]\<rparr>)"
    and signal: "\<And>i st. P st \<Longrightarrow> length (tasks st) = length pkgs \<Longrightarrow>
        P (st\<lparr>sync := releaseUnit readyForRelease i (sync st)\<rparr>)"
    and settle: "\<And>i res st. P st \<Longrightarrow> length (tasks st) = length pkgs \<Longrightarrow> i < length pkgs \<Longrightarrow>
        tasks st ! i = AwaitingEngine \<Longrightarrow> P (settle i res st)"
  shows "P (releaseAll C mc flags pkgs schedule) \<and>
         length (tasks (releaseAll C mc flags pkgs schedule)) = length pkgs"
proof -
  have wake: "P (wake C mc flags i st)" if P: "P st" and len: "length (tasks st) = length pkgs" for i st
  proof (cases "i < length (tasks st) \<and> tasks st ! i = AwaitingSignal
      \<and> hasArrived readyForRelease i (sync st)")
    case True
    then have "P (startRelease C mc flags i st)"
      using len by (intro start [OF P len]) simp_all
    moreover have "wake C mc flags i st = startRelease C mc flags i st"
      unfolding wake_def using True by (rule if_P)
    ultimately show ?thesis by simp
  next
    case False
    then have "wake C mc flags i st = st" unfolding wake_def by (rule if_not_P)
    then show ?thesis using P by simp
  qed
  let ?s0 = "fold (spawn C mc flags) [0..<length pkgs] (initialState pkgs)"
  have "length pkgs \<le> length pkgs \<Longrightarrow> P ?s0 \<and> length (tasks ?s0) = length pkgs \<and>
      (\<forall>j. length pkgs \<le> j \<and> j < length pkgs \<longrightarrow> tasks ?s0 ! j = Unstarted)"
  proof (rule spawn_phase)
    show "P (initialState pkgs)" by (rule init)
  next
    fix i st
    assume "P st" "length (tasks st) = length pkgs" "i < length pkgs"
      "tasks st ! i = Unstarted \<or> tasks st ! i = AwaitingSignal"
    then show "P (startRelease C mc flags i st)" by (rule start)
  next
    fix i st
    assume "P st" "length (tasks st) = length pkgs" "i < length pkgs" "tasks st ! i = Unstarted"
    then show "P (st\<lparr>sync := getLucky readyForRelease i (sync st),
              tasks := (tasks st)[i := AwaitingSignal],
              trace := trace st @ [GetLucky readyForRelease i, WaitFor readyForRelease i]\<rparr>)"
      by (rule gate)
  qed
  then have s0: "P ?s0 \<and> length (tasks ?s0) = length pkgs"
    by (simp only: order_refl simp_thms)
  have spawned: "P (spawnAll C mc flags pkgs) \<and> length (tasks (spawnAll C mc flags pkgs)) = length pkgs"
    unfolding spawnAll_def
    by (rule fold_wake [of P ?s0 "length pkgs" C mc flags, OF s0 wake])
  have step: "P (step C mc flags occ st)" if P: "P st" and len: "length (tasks st) = length pkgs" for occ st
  proof (cases occ)
    case (Signals i)
    let ?st = "st\<lparr>sync := releaseUnit readyForRelease i (sync st)\<rparr>"
    have "P ?st" by (rule signal [OF P len])
    then have "P (wake C mc flags i ?st)" using len by (intro wake) simp_all
    then show ?thesis using Signals by (simp add: step_def)
  next
    case (Settles i res)
    show ?thesis
    proof (cases "i < length (tasks st) \<and> tasks st ! i = AwaitingEngine")
      case True
      then have "P (settle i res st)" using len by (intro settle [OF P len]) simp_all
      then show ?thesis using Settles by (simp add: step_def)
    next
      case False
      then have "settle i res st = st" unfolding settle_def by (rule if_not_P)
      then show ?thesis using P Settles by (simp add: step_def)
    qed
  qed
  have "P (fold (step C mc flags) sch st) \<and> length (tasks (fold (step C mc flags) sch st)) = length pkgs"
    if "P st" "length (tasks st) = length pkgs" for sch st
    using that
  proof (induction sch arbitrary: st)
    case Nil
    then show ?case by simp
  next
    case (Cons occ sch)
    have "P (step C mc flags occ st)" by (rule step [OF Cons.prems])
    moreover have "length (tasks (step C mc flags occ st)) = length pkgs"
      using Cons.prems by simp
    ultimately show ?case using Cons.IH by simp
  qed
  from this [of "spawnAll C mc flags pkgs" schedule] spawned
  show ?thesis by (simp add: releaseAll_def)
qed

section \<open>The joined promise\<close>

lemma firstRejection_append:
  "firstRejection (xs @ ys) = (case firstRejection xs of Some e \<Rightarrow> Some e | None \<Rightarrow> firstRejection ys)"
  by (induction xs rule: firstRejection.induct) simp_all

lemma not_all_fulfilled:
  "i < length ts \<Longrightarrow> ts ! i \<noteq> Fulfilled \<Longrightarrow> \<not> list_all (\<lambda>t. t = Fulfilled) ts"
  by (auto simp: list_all_length)

lemma not_all_fulfilled_update:
  "i < length ts \<Longrightarrow> t \<noteq> Fulfilled \<Longrightarrow> \<not> list_all (\<lambda>t. t = Fulfilled) (ts[i := t])"
  by (rule not_all_fulfilled [of i]) simp_all

lemma joined_startRelease:
  assumes "joined st = joinedOf st" "i < length (tasks st)" "tasks st ! i \<noteq> Fulfilled"
  shows "joined (startRelease C mc flags i st) = joinedOf (startRelease C mc flags i st)"
proof -
  have 1: "\<not> list_all (\<lambda>t. t = Fulfilled) (tasks st)"
    using assms by (intro not_all_fulfilled [of i]) simp_all
  have 2: "\<not> list_all (\<lambda>t. t = Fulfilled) ((tasks st)[i := AwaitingEngine])"
    using assms by (intro not_all_fulfilled_update) simp_all
  show ?thesis
    using assms(1) 1 2
    by (simp add: startRelease_def Let_def joinedOf_def firstRejection_append split: option.splits)
qed

lemma joined_gate:
  assumes "joined st = joinedOf st" "i < length (tasks st)" "tasks st ! i \<noteq> Fulfilled"
  shows "joined (st\<lparr>sync := s, tasks := (tasks st)[i := AwaitingSignal], trace := trace st @ [GetLucky g i, WaitFor g i]\<rparr>)
    = joinedOf (st\<lparr>sync := s, tasks := (tasks st)[i := AwaitingSignal], trace := trace st @ [GetLucky g i, WaitFor g i]\<rparr>)"
proof -
  have 1: "\<not> list_all (\<lambda>t. t = Fulfilled) (tasks st)"
    using assms by (intro not_all_fulfilled [of i]) simp_all
  have 2: "\<not> list_all (\<lambda>t. t = Fulfilled) ((tasks st)[i := AwaitingSignal])"
    using assms by (intro not_all_fulfilled_update) simp_all
  show ?thesis
    using assms(1) 1 2
    by (simp add: joinedOf_def firstRejection_append split: option.splits)
qed

lemma joined_settle:
  assumes "joined st = joinedOf st" "i < length (tasks st)" "tasks st ! i = AwaitingEngine"
  shows "joined (settle i res st) = joinedOf (settle i res st)"
proof -
  have 1: "\<not> list_all (\<lambda>t. t = Fulfilled) (tasks st)"
    using assms by (intro not_all_fulfilled [of i]) simp_all
  show ?thesis
  proof (cases res)
    case (Inl reason)
    have 2: "\<not> list_all (\<lambda>t. t = Fulfilled) ((tasks st)[i := Rejected (PipelineError reason)])"
      using assms by (intro not_all_fulfilled_update) simp_all
    show ?thesis using assms 1 2 Inl
      by (simp add: settle_def joinedOf_def firstRejection_append split: option.splits)
  next
    case (Inr r)
    then show ?thesis using assms 1
      by (simp add: settle_def joinedOf_def firstRejection_append split: option.splits)
  qed
qed

lemma joined_releaseAll:
  "joined (releaseAll C mc flags pkgs schedule) = joinedOf (releaseAll C mc flags pkgs schedule)"
proof -
  have "(\<lambda>st. joined st = joinedOf st) (releaseAll C mc flags pkgs schedule) \<and>
        length (tasks (releaseAll C mc flags pkgs schedule)) = length pkgs"
  proof (rule releaseAll_induct, goal_cases)
    case 1
    then show ?case
      by (cases pkgs) (simp_all add: initialState_def joinedOf_def)
  next
    case (2 i st)
    then show ?case by (intro joined_startRelease) auto
  next
    case (3 i st)
    then show ?case by (intro joined_gate) auto
  next
    case (4 i st)
    then show ?case by (simp add: joinedOf_def)
  next
    case (5 i res st)
    then show ?case by (intro joined_settle) auto
  qed
  then show ?thesis by simp
qed

section \<open>Writes to the result of a package\<close>

lemma writesOf_append [simp]: "writesOf i (xs @ ys) = writesOf i xs @ writesOf i ys"
  by (simp add: writesOf_def)

lemma writesOf_simps [simp]:
  "writesOf i [] = []"
  "writesOf i (SetResult j v # es) = (if j = i then SetResult j v # writesOf i es else writesOf i es)"
  "writesOf i (TaskRejected j e # es) = writesOf i es"
  "writesOf i (CreateInlinePlugin j # es) = writesOf i es"
  "writesOf i (SemanticRelease j opts ctx # es) = writesOf i es"
  "writesOf i (GetLucky g j # es) = writesOf i es"
  "writesOf i (WaitFor g j # es) = writesOf i es"
  by (simp_all add: writesOf_def)

lemma resultInv_initial: "resultInv pkgs (initialState pkgs)"
  by (simp add: resultInv_def initialState_def)

lemma resultInv_startRelease:
  assumes "resultInv pkgs st" "length (tasks st) = length pkgs" "i < length pkgs"
    "tasks st ! i \<noteq> Fulfilled"
  shows "resultInv pkgs (startRelease C mc flags i st)"
  using assms unfolding resultInv_def startRelease_def Let_def
  by (simp add: nth_list_update)

lemma resultInv_gate:
  assumes "resultInv pkgs st" "length (tasks st) = length pkgs" "i < length pkgs"
    "tasks st ! i \<noteq> Fulfilled"
  shows "resultInv pkgs (st\<lparr>sync := s, tasks := (tasks st)[i := AwaitingSignal],
     trace := trace st @ [GetLucky g i, WaitFor g i]\<rparr>)"
  using assms unfolding resultInv_def
  by (simp add: nth_list_update)

lemma resultInv_settle:
  assumes "resultInv pkgs st" "length (tasks st) = length pkgs" "i < length pkgs"
    "tasks st ! i = AwaitingEngine"
  shows "resultInv pkgs (settle i res st)"
proof (cases res)
  case (Inl reason)
  then show ?thesis
    using assms unfolding resultInv_def settle_def
    by (simp add: nth_list_update)
next
  case (Inr x)
  have len: "length (packages st) = length pkgs" using assms(1) by (simp add: resultInv_def)
  have eq: "packages st ! i = (pkgs ! i)\<lparr>result := result (packages st ! i)\<rparr>"
    using assms(1,3) by (simp add: resultInv_def)
  have "(packages st ! i)\<lparr>result := resultValue x\<rparr> = (pkgs ! i)\<lparr>result := resultValue x\<rparr>"
    by (subst eq) simp
  then show ?thesis
    using assms Inr unfolding resultInv_def settle_def
    by (auto simp: nth_list_update)
qed

lemma resultInv_releaseAll: "resultInv pkgs (releaseAll C mc flags pkgs schedule)"
proof -
  have "resultInv pkgs (releaseAll C mc flags pkgs schedule) \<and>
        length (tasks (releaseAll C mc flags pkgs schedule)) = length pkgs"
  proof (rule releaseAll_induct, goal_cases)
    case 1
    then show ?case by (rule resultInv_initial)
  next
    case (2 i st)
    then show ?case by (intro resultInv_startRelease) auto
  next
    case (3 i st)
    then show ?case by (intro resultInv_gate) auto
  next
    case (4 i st)
    then show ?case by (simp add: resultInv_def)
  next
    case (5 i res st)
    then show ?case by (intro resultInv_settle) auto
  qed
  then show ?thesis by simp
qed

section \<open>The spawn phase\<close>


lemma gates_Suc: "gates (Suc k) = gates k @ [GetLucky readyForRelease k, WaitFor readyForRelease k]"
  by (simp add: gates_def)

lemma gates_0 [simp]: "gates 0 = []"
  by (simp add: gates_def)

lemma gates_isGate: "e \<in> set (gates n) \<Longrightarrow> isGate e"
  by (auto simp: gates_def)

lemma sync_startRelease [simp]: "sync (startRelease C mc flags i st) = sync st"
  by (simp add: startRelease_def Let_def)

lemma packages_startRelease [simp]: "packages (startRelease C mc flags i st) = packages st"
  by (simp add: startRelease_def Let_def)

lemma joined_of_startRelease [simp]: "joined (startRelease C mc flags i st) = joined st"
  by (simp add: startRelease_def Let_def)

lemma trace_startRelease:
  "trace (startRelease C mc flags i st) = trace st @
     [CreateInlinePlugin i,
      SemanticRelease i
        (releaseOptions flags (packages st ! i)
           (createInlinePlugin C (packages st) flags (packages st ! i)))
        (releaseContext mc (packages st ! i))]"
  by (simp add: startRelease_def Let_def)

lemma gated_phase:
  assumes flag: "truthy (getOwn flags ''sequentialInit'')"
  shows "k \<le> length pkgs \<Longrightarrow>
    (let st = fold (spawn C mc flags) [0..<k] (initialState pkgs) in
     packages st = pkgs \<and>
     tasks st = replicate k AwaitingSignal @ replicate (length pkgs - k) Unstarted \<and>
     trace st = gates k \<and>
     joined st = (if pkgs = [] then Some (Inr ()) else None) \<and>
     arrived (sync st) = (if k = 0 then [] else [(readyForRelease, 0)]) \<and>
     drivers (sync st) = (if k = 0 then [] else [(readyForRelease, 0)]))"
proof (induction k)
  case 0
  then show ?case by (simp add: initialState_def getSynchronizer_def)
next
  case (Suc k)
  let ?st = "fold (spawn C mc flags) [0..<k] (initialState pkgs)"
  from Suc have k: "k < length pkgs" by simp
  from Suc have IH: "packages ?st = pkgs"
    "tasks ?st = replicate k AwaitingSignal @ replicate (length pkgs - k) Unstarted"
    "trace ?st = gates k" "joined ?st = (if pkgs = [] then Some (Inr ()) else None)"
    "arrived (sync ?st) = (if k = 0 then [] else [(readyForRelease, 0)])"
    "drivers (sync ?st) = (if k = 0 then [] else [(readyForRelease, 0)])"
    by (simp_all add: Let_def)
  have upd: "(replicate k AwaitingSignal @ replicate (length pkgs - k) Unstarted)[k := AwaitingSignal]
    = replicate (Suc k) AwaitingSignal @ replicate (length pkgs - Suc k) Unstarted"
  proof -
    obtain m where m: "length pkgs - k = Suc m" using k by (cases "length pkgs - k") auto
    then have "length pkgs - Suc k = m" by simp
    then show ?thesis using m
      by (simp add: list_update_append replicate_append_same)
  qed
  have sp: "spawn C mc flags k ?st = ?st\<lparr>sync := getLucky readyForRelease k (sync ?st),
              tasks := (tasks ?st)[k := AwaitingSignal],
              trace := trace ?st @ [GetLucky readyForRelease k, WaitFor readyForRelease k]\<rparr>"
    using flag by (simp add: spawn_def)
  have "fold (spawn C mc flags) [0..<Suc k] (initialState pkgs) = spawn C mc flags k ?st"
    by simp
  then show ?case
    unfolding Let_def
    by (simp only: sp) (simp add: IH upd gates_Suc getLucky_def)
qed

lemma fold_wake_idle:
  "(\<forall>j \<in> set js. \<not> hasArrived readyForRelease j (sync st)) \<Longrightarrow>
   fold (wake C mc flags) js st = st"
proof (induction js)
  case Nil
  then show ?case by simp
next
  case (Cons j js)
  then have "wake C mc flags j st = st" by (simp add: wake_def)
  then show ?case using Cons by simp
qed

lemma spawnAll_gated:
  assumes flag: "truthy (getOwn flags ''sequentialInit'')" and ne: "pkgs \<noteq> []"
  shows "spawnAll C mc flags pkgs =
     startRelease C mc flags 0 (fold (spawn C mc flags) [0..<length pkgs] (initialState pkgs))"
proof -
  let ?st = "fold (spawn C mc flags) [0..<length pkgs] (initialState pkgs)"
  have g: "tasks ?st = replicate (length pkgs) AwaitingSignal"
    "arrived (sync ?st) = [(readyForRelease, 0)]"
    using gated_phase [OF flag, of "length pkgs" pkgs C mc] ne by (simp_all add: Let_def)
  have up: "[0..<length pkgs] = 0 # [1..<length pkgs]"
    using ne by (simp add: upt_conv_Cons)
  have w0: "wake C mc flags 0 ?st = startRelease C mc flags 0 ?st"
    using g ne by (simp add: wake_def hasArrived_def)
  have "\<forall>j \<in> set [1..<length pkgs]. \<not> hasArrived readyForRelease j (sync (startRelease C mc flags 0 ?st))"
    using g by (simp add: hasArrived_def)
  then have "fold (wake C mc flags) [1..<length pkgs] (startRelease C mc flags 0 ?st)
     = startRelease C mc flags 0 ?st"
    by (rule fold_wake_idle)
  then show ?thesis
    unfolding spawnAll_def by (subst up) (simp add: w0)
qed

lemma ungated_phase:
  assumes flag: "\<not> truthy (getOwn flags ''sequentialInit'')"
  shows "k \<le> length pkgs \<Longrightarrow>
    (let st = fold (spawn C mc flags) [0..<k] (initialState pkgs) in
     packages st = pkgs \<and>
     tasks st = replicate k AwaitingEngine @ replicate (length pkgs - k) Unstarted \<and>
     trace st = concat (map (startEvents C mc flags pkgs) [0..<k]) \<and>
     joined st = (if pkgs = [] then Some (Inr ()) else None) \<and>
     sync st = getSynchronizer)"
proof (induction k)
  case 0
  then show ?case by (simp add: initialState_def)
next
  case (Suc k)
  let ?st = "fold (spawn C mc flags) [0..<k] (initialState pkgs)"
  from Suc have k: "k < length pkgs" by simp
  from Suc have IH: "packages ?st = pkgs"
    "tasks ?st = replicate k AwaitingEngine @ replicate (length pkgs - k) Unstarted"
    "trace ?st = concat (map (startEvents C mc flags pkgs) [0..<k])"
    "joined ?st = (if pkgs = [] then Some (Inr ()) else None)"
    "sync ?st = getSynchronizer"
    by (simp_all add: Let_def)
  have upd: "(replicate k AwaitingEngine @ replicate (length pkgs - k) Unstarted)[k := AwaitingEngine]
    = replicate (Suc k) AwaitingEngine @ replicate (length pkgs - Suc k) Unstarted"
  proof -
    obtain m where m: "length pkgs - k = Suc m" using k by (cases "length pkgs - k") auto
    then have "length pkgs - Suc k = m" by simp
    then show ?thesis using m
      by (simp add: list_update_append replicate_append_same)
  qed
  have sp: "spawn C mc flags k ?st = startRelease C mc flags k ?st"
    using flag by (simp add: spawn_def)
  have "fold (spawn C mc flags) [0..<Suc k] (initialState pkgs) = spawn C mc flags k ?st"
    by simp
  then show ?case
    unfolding Let_def
    by (simp only: sp) (simp add: IH upd trace_startRelease tasks_startRelease startEvents_def)
qed

lemma spawnAll_ungated:
  assumes flag: "\<not> truthy (getOwn flags ''sequentialInit'')"
  shows "spawnAll C mc flags pkgs = fold (spawn C mc flags) [0..<length pkgs] (initialState pkgs)"
proof -
  let ?st = "fold (spawn C mc flags) [0..<length pkgs] (initialState pkgs)"
  have "sync ?st = getSynchronizer"
    using ungated_phase [OF flag, of "length pkgs" pkgs C mc] by (simp add: Let_def)
  then have "\<forall>j \<in> set [0..<length pkgs]. \<not> hasArrived readyForRelease j (sync ?st)"
    by (simp add: hasArrived_def getSynchronizer_def)
  then show ?thesis unfolding spawnAll_def by (rule fold_wake_idle)
qed

lemma trace_wake:
  "\<exists>new. trace (wake C mc flags i st) = trace st @ new \<and> \<not> list_ex isGate new"
  by (simp add: wake_def trace_startRelease)

lemma trace_settle:
  "\<exists>new. trace (settle i res st) = trace st @ new \<and> \<not> list_ex isGate new"
  by (cases res) (simp_all add: settle_def)

lemma trace_step:
  "\<exists>new. trace (step C mc flags occ st) = trace st @ new \<and> \<not> list_ex isGate new"
proof (cases occ)
  case (Signals i)
  show ?thesis
    using trace_wake [of C mc flags i "st\<lparr>sync := releaseUnit readyForRelease i (sync st)\<rparr>"]
    by (simp add: step_def Signals)
next
  case (Settles i res)
  then show ?thesis using trace_settle [of i res st] by (simp add: step_def)
qed


section \<open>The gate of sequentialInit\<close>

lemma no_engine_call_gates [simp]: "\<not> list_ex (isEngineCall i) (gates n)"
proof -
  have "\<not> isEngineCall i e" if "isGate e" for e using that by (cases e) simp_all
  then show ?thesis using gates_isGate by (auto simp: list_ex_iff)
qed




section \<open>Calls of the release engine\<close>

lemma resultInv_unwritten:
  assumes "resultInv pkgs st" "i < length pkgs" "tasks st ! i \<noteq> Fulfilled"
  shows "packages st ! i = pkgs ! i"
proof -
  have a: "packages st ! i = (pkgs ! i)\<lparr>result := result (packages st ! i)\<rparr>"
    using assms(1,2) unfolding resultInv_def by blast
  have "if tasks st ! i = Fulfilled then \<exists>x. result (packages st ! i) = resultValue x
          else result (packages st ! i) = result (pkgs ! i)"
    using assms(1,2) unfolding resultInv_def by blast
  then have b: "result (packages st ! i) = result (pkgs ! i)"
    using assms(3) by (simp only: if_False)
  have "(pkgs ! i)\<lparr>result := result (pkgs ! i)\<rparr> = pkgs ! i" by simp
  with a [unfolded b] show ?thesis by (rule trans)
qed

lemma callsInv_releaseAll: "callsInv C mc flags pkgs (releaseAll C mc flags pkgs schedule)"
proof -
  let ?P = "\<lambda>st. resultInv pkgs st \<and> callsInv C mc flags pkgs st"
  have "?P (releaseAll C mc flags pkgs schedule) \<and>
        length (tasks (releaseAll C mc flags pkgs schedule)) = length pkgs"
  proof (rule releaseAll_induct, goal_cases)
    case 1
    have "callsInv C mc flags pkgs (initialState pkgs)"
      by (simp add: callsInv_def initialState_def)
    then show ?case using resultInv_initial by blast
  next
    case (2 i st)
    then have nf: "tasks st ! i \<noteq> Fulfilled" by auto
    have eq: "packages st ! i = pkgs ! i"
      using 2 nf by (intro resultInv_unwritten) simp_all
    have "resultInv pkgs (startRelease C mc flags i st)"
      using 2 nf by (intro resultInv_startRelease) simp_all
    moreover have "callsInv C mc flags pkgs (startRelease C mc flags i st)"
      using 2(1,3) unfolding callsInv_def trace_startRelease eq
      by auto
    ultimately show ?case by simp
  next
    case (3 i st)
    then have "resultInv pkgs (st\<lparr>sync := getLucky readyForRelease i (sync st),
              tasks := (tasks st)[i := AwaitingSignal],
              trace := trace st @ [GetLucky readyForRelease i, WaitFor readyForRelease i]\<rparr>)"
      by (intro resultInv_gate) auto
    then show ?case using 3(1) by (simp add: callsInv_def)
  next
    case (4 i st)
    then show ?case by (simp add: resultInv_def callsInv_def)
  next
    case (5 i res st)
    then have "resultInv pkgs (settle i res st)" by (intro resultInv_settle) auto
    moreover have "callsInv C mc flags pkgs (settle i res st)"
      using 5(1) by (cases res) (simp_all add: callsInv_def settle_def)
    ultimately show ?case by simp
  qed
  then show ?thesis by simp
qed

section \<open>Local dependencies are found by name\<close>

lemma findIndex_Some:
  "findIndex P xs = Some i \<longleftrightarrow> i < length xs \<and> P (xs ! i) \<and> (\<forall>j < i. \<not> P (xs ! j))"
proof (induction xs arbitrary: i)
  case Nil
  then show ?case by simp
next
  case (Cons x xs)
  show ?case
  proof (cases "P x")
    case True
    then show ?thesis by (cases i) auto
  next
    case False
    show ?thesis
    proof (cases i)
      case 0
      then show ?thesis using False by auto
    next
      case (Suc k)
      have "(\<forall>j < Suc k. \<not> P ((x # xs) ! j)) = (\<forall>j < k. \<not> P (xs ! j))"
        using False by (auto simp: less_Suc_eq_0_disj)
      then show ?thesis using False Suc Cons.IH [of k] by auto
    qed
  qed
qed

lemma findIndex_None: "findIndex P xs = None \<longleftrightarrow> (\<forall>x \<in> set xs. \<not> P x)"
  by (induction xs) auto

lemma uniq_fold:
  "set (fold (\<lambda>x seen. if x \<in> set seen then seen else seen @ [x]) xs acc) = set acc \<union> set xs \<and>
   (distinct acc \<longrightarrow> distinct (fold (\<lambda>x seen. if x \<in> set seen then seen else seen @ [x]) xs acc))"
  by (induction xs arbitrary: acc) auto

lemma set_uniq [simp]: "set (uniq xs) = set xs"
  using uniq_fold [of xs "[]"] by (simp add: uniq_def)

lemma distinct_uniq [simp]: "distinct (uniq xs)"
  using uniq_fold [of xs "[]"] by (simp add: uniq_def)

lemma set_map_filter':
  "set (List.map_filter f xs) = {y. \<exists>x \<in> set xs. f x = Some y}"
  by (induction xs) (auto simp: List.map_filter_simps split: option.splits)

lemma set_localDepsOf:
  "set (localDepsOf pkgs pkg) =
     {j. j < length pkgs \<and> name (pkgs ! j) \<in> set (deps pkg) \<and>
         (\<forall>k < j. name (pkgs ! k) \<noteq> name (pkgs ! j))}"
proof -
  have "set (localDepsOf pkgs pkg) =
      {j. \<exists>d \<in> set (deps pkg). findIndex (\<lambda>p. d = name p) pkgs = Some j}"
    by (simp add: localDepsOf_def set_map_filter')
  also have "\<dots> = {j. j < length pkgs \<and> name (pkgs ! j) \<in> set (deps pkg) \<and>
         (\<forall>k < j. name (pkgs ! k) \<noteq> name (pkgs ! j))}"
    by (auto simp: findIndex_Some)
  finally show ?thesis .
qed

lemma length_linkLocalDeps [simp]: "length (linkLocalDeps pkgs) = length pkgs"
  by (simp add: linkLocalDeps_def)

lemma nth_linkLocalDeps:
  "i < length pkgs \<Longrightarrow>
   linkLocalDeps pkgs ! i = (pkgs ! i)\<lparr>localDeps := localDepsOf pkgs (pkgs ! i)\<rparr>"
  by (simp add: linkLocalDeps_def)

lemma first_of_name:
  assumes "d \<in> name ` set pkgs"
  shows "\<exists>j < length pkgs. name (pkgs ! j) = d \<and> (\<forall>k < j. name (pkgs ! k) \<noteq> d)"
proof -
  have "findIndex (\<lambda>p. d = name p) pkgs \<noteq> None"
    using assms by (auto simp: findIndex_None)
  then obtain j where "findIndex (\<lambda>p. d = name p) pkgs = Some j" by blast
  then have "j < length pkgs \<and> d = name (pkgs ! j) \<and> (\<forall>k < j. d \<noteq> name (pkgs ! k))"
    unfolding findIndex_Some by blast
  then have a: "j < length pkgs" and b: "name (pkgs ! j) = d"
    and c: "\<And>k. k < j \<Longrightarrow> name (pkgs ! k) \<noteq> d" by auto
  show ?thesis using a b c by blast
qed

lemma localDeps_general:
  assumes i: "i < length pkgs"
  shows "(\<forall>j \<in> set (localDeps (linkLocalDeps pkgs ! i)).
            j < length pkgs \<and> name (pkgs ! j) \<in> set (deps (pkgs ! i))) \<and>
         (\<forall>d \<in> set (deps (pkgs ! i)). 
            (d \<in> name ` set pkgs) =
            (\<exists>j \<in> set (localDeps (linkLocalDeps pkgs ! i)). name (pkgs ! j) = d)) \<and>
         distinct (localDeps (linkLocalDeps pkgs ! i)) \<and>
         (distinct (map name pkgs) \<longrightarrow>
            set (localDeps (linkLocalDeps pkgs ! i)) =
              {j. j < length pkgs \<and> name (pkgs ! j) \<in> set (deps (pkgs ! i))}) \<and>
         linkLocalDeps pkgs ! i =
            (pkgs ! i)\<lparr>localDeps := localDeps (linkLocalDeps pkgs ! i)\<rparr>"
proof -
  let ?L = "localDeps (linkLocalDeps pkgs ! i)"
  have L: "?L = localDepsOf pkgs (pkgs ! i)"
    using i by (simp add: nth_linkLocalDeps)
  have S: "set ?L = {j. j < length pkgs \<and> name (pkgs ! j) \<in> set (deps (pkgs ! i)) \<and>
         (\<forall>k < j. name (pkgs ! k) \<noteq> name (pkgs ! j))}"
    by (simp add: L set_localDepsOf)
  have 1: "\<forall>j \<in> set ?L. j < length pkgs \<and> name (pkgs ! j) \<in> set (deps (pkgs ! i))"
    by (simp add: S)
  have 2: "(d \<in> name ` set pkgs) = (\<exists>j \<in> set ?L. name (pkgs ! j) = d)"
    if d: "d \<in> set (deps (pkgs ! i))" for d
  proof
    assume "d \<in> name ` set pkgs"
    from first_of_name [OF this] obtain j where "j < length pkgs" "name (pkgs ! j) = d"
      "\<forall>k < j. name (pkgs ! k) \<noteq> d" by blast
    then have "j \<in> set ?L" using d by (simp add: S)
    then show "\<exists>j \<in> set ?L. name (pkgs ! j) = d" using \<open>name (pkgs ! j) = d\<close> by blast
  next
    assume "\<exists>j \<in> set ?L. name (pkgs ! j) = d"
    then obtain j where "j < length pkgs" "name (pkgs ! j) = d" by (auto simp: S)
    then show "d \<in> name ` set pkgs" by (metis imageI nth_mem)
  qed
  have 3: "distinct ?L" by (simp add: L localDepsOf_def)
  have 4: "set ?L = {j. j < length pkgs \<and> name (pkgs ! j) \<in> set (deps (pkgs ! i))}"
    if dist: "distinct (map name pkgs)"
  proof -
    have "name (pkgs ! k) \<noteq> name (pkgs ! j)" if "k < j" "j < length pkgs" for k j
      using that dist by (simp add: distinct_conv_nth)
    then show ?thesis unfolding S by auto
  qed
  have 5: "linkLocalDeps pkgs ! i = (pkgs ! i)\<lparr>localDeps := ?L\<rparr>"
    using i by (simp add: nth_linkLocalDeps)
  show ?thesis using 1 2 3 4 5 by blast
qed

section \<open>The events of a run\<close>

lemma taskEvents_releaseAll: "list_all isTaskEvent (trace (releaseAll C mc flags pkgs schedule))"
proof -
  have "(\<lambda>st. list_all isTaskEvent (trace st)) (releaseAll C mc flags pkgs schedule) \<and>
        length (tasks (releaseAll C mc flags pkgs schedule)) = length pkgs"
  proof (rule releaseAll_induct, goal_cases)
    case 1
    then show ?case by (simp add: initialState_def)
  next
    case (2 i st)
    then show ?case by (simp add: trace_startRelease)
  next
    case (3 i st)
    then show ?case by simp
  next
    case (4 i st)
    then show ?case by simp
  next
    case (5 i res st)
    then show ?case by (cases res) (simp_all add: settle_def)
  qed
  then show ?thesis by simp
qed

lemma firstRejection_None_iff:
  "firstRejection es = None \<longleftrightarrow> (\<forall>i e. TaskRejected i e \<notin> set es)"
  by (induction es rule: firstRejection.induct) auto

lemma firstRejection_Some_mem:
  "firstRejection es = Some e \<Longrightarrow> \<exists>i. TaskRejected i e \<in> set es"
  by (induction es rule: firstRejection.induct) auto

lemma orchestrator_events:
  "list_all isOrchestratorEvent (loadingEvents sources)"
  "list_all isOrchestratorEvent (linkedEvents pkgs)"
  "list_all isOrchestratorEvent (queuedEvents pkgs)"
  "isOrchestratorEvent (Log Failure cyclicMessage)"
  by (simp_all add: loadingEvents_def linkedEvents_def queuedEvents_def isOrchestratorEvent_def
      list_all_iff startedMessage_def queuedMessage_def)

lemma orchestrator_no_rejection:
  "list_all isOrchestratorEvent es \<Longrightarrow> firstRejection (es @ xs) = firstRejection xs"
  by (induction es rule: firstRejection.induct) (simp_all add: isOrchestratorEvent_def)

lemma summary_not_orchestrator:
  "\<not> isOrchestratorEvent (Log Complete (releasedMessage k n))"
  by (simp add: isOrchestratorEvent_def releasedMessage_def)

lemma orchestrator_not_summary:
  "list_all isOrchestratorEvent es \<Longrightarrow> Log Complete (releasedMessage k n) \<notin> set es"
  using summary_not_orchestrator by (auto simp: list_all_iff)

lemma task_not_summary:
  "list_all isTaskEvent es \<Longrightarrow> Log l m \<notin> set es"
  by (auto simp: list_all_iff)

lemma length_allOrFirstError:
  "allOrFirstError rs = Inr xs \<Longrightarrow> length xs = length rs"
  by (induction rs arbitrary: xs rule: allOrFirstError.induct) (auto split: sum.splits)

lemma run_cases:
  obtains
    (params) e where "checkParams C paths pm s = Some e"
      "multiSemanticRelease C paths pm io s flags sch = \<lparr>outcome = Rejects e, events = []\<rparr>"
  | (loading) e where "checkParams C paths pm s = None"
      "loadPackages C (contextOf C io s) (sourcesOf paths pm) = Inl e"
      "multiSemanticRelease C paths pm io s flags sch =
         \<lparr>outcome = Rejects e, events = loadingEvents (sourcesOf paths pm)\<rparr>"
  | (cyclic) loaded where "checkParams C paths pm s = None"
      "loadPackages C (contextOf C io s) (sourcesOf paths pm) = Inr loaded"
      "truthy (getOwn flags ''sequentialPrepare'')" "isCyclicProject (linkLocalDeps loaded)"
      "multiSemanticRelease C paths pm io s flags sch =
         \<lparr>outcome = Rejects cyclicError,
          events = loadingEvents (sourcesOf paths pm) @ linkedEvents (linkLocalDeps loaded) @
            [Log Failure cyclicMessage]\<rparr>"
  | (released) loaded where "checkParams C paths pm s = None"
      "loadPackages C (contextOf C io s) (sourcesOf paths pm) = Inr loaded"
      "\<not> (truthy (getOwn flags ''sequentialPrepare'') \<and> isCyclicProject (linkLocalDeps loaded))"
      "multiSemanticRelease C paths pm io s flags sch =
         finish (loadingEvents (sourcesOf paths pm) @ linkedEvents (linkLocalDeps loaded) @
                 queuedEvents (linkLocalDeps loaded))
           (releaseAll C (contextOf C io s) flags (linkLocalDeps loaded) sch)"
proof (cases "checkParams C paths pm s")
  case (Some e)
  then show ?thesis by (intro params [of e]) (simp_all add: multiSemanticRelease_def)
next
  case None
  show ?thesis
  proof (cases "loadPackages C (contextOf C io s) (sourcesOf paths pm)")
    case (Inl e)
    then show ?thesis using None
      by (intro loading [of e]) (simp_all add: multiSemanticRelease_def Let_def)
  next
    case (Inr loaded)
    show ?thesis
    proof (cases "truthy (getOwn flags ''sequentialPrepare'') \<and> isCyclicProject (linkLocalDeps loaded)")
      case True
      then show ?thesis using None Inr
        by (intro cyclic [of loaded]) (simp_all add: multiSemanticRelease_def Let_def)
    next
      case False
      then show ?thesis using None Inr
        by (intro released [of loaded]) (simp_all add: multiSemanticRelease_def Let_def if_not_P [OF False])
    qed
  qed
qed

lemma checkParams_None_iff:
  "checkParams C paths pm s = None \<longleftrightarrow>
     \<not> ((\<not> truthy paths \<and> \<not> truthy pm) \<or>
        (truthy paths \<and> \<not> isArrayOf isString paths) \<or>
        (truthy pm \<and> \<not> isArrayOf isObjectlike pm) \<or>
        \<not> isDirectory C (cwd (withDefaults C s)) \<or>
        \<not> isObjectlike (env (withDefaults C s)) \<or>
        \<not> isStream C (stdout (withDefaults C s)) \<or>
        \<not> isStream C (stderr (withDefaults C s)))"
  unfolding checkParams_def by (simp split: if_splits)

lemma events_finish_nonempty: "earlier \<noteq> [] \<Longrightarrow> events (finish earlier st) \<noteq> []"
  by (simp add: finish_def Let_def split: option.splits sum.splits)

lemma joined_rejection_pipeline:
  assumes "joined (releaseAll C mc flags pkgs sch) = Some (Inl e)"
  shows "\<exists>reason. e = PipelineError reason"
proof -
  let ?st = "releaseAll C mc flags pkgs sch"
  have "firstRejection (trace ?st) = Some e"
    using assms joined_releaseAll [of C mc flags pkgs sch]
    by (simp add: joinedOf_def split: option.splits if_splits)
  then obtain i where "TaskRejected i e \<in> set (trace ?st)"
    using firstRejection_Some_mem by blast
  then have "isTaskEvent (TaskRejected i e)"
    using taskEvents_releaseAll [of C mc flags pkgs sch] by (simp add: list_all_iff)
  then show ?thesis by (cases e) simp_all
qed

lemma cyclic_rejection:
  assumes "checkParams C paths pm s = None"
    and "loadPackages C (contextOf C io s) (sourcesOf paths pm) = Inr loaded"
  shows "(truthy (getOwn flags ''sequentialPrepare'') \<and> isCyclicProject (linkLocalDeps loaded) \<longrightarrow>
           outcome (multiSemanticRelease C paths pm io s flags sch) = Rejects cyclicError \<and>
           events (multiSemanticRelease C paths pm io s flags sch) =
             loadingEvents (sourcesOf paths pm) @ linkedEvents (linkLocalDeps loaded) @
             [Log Failure cyclicMessage] \<and>
           list_all isOrchestratorEvent (events (multiSemanticRelease C paths pm io s flags sch))) \<and>
         (\<not> truthy (getOwn flags ''sequentialPrepare'') \<longrightarrow>
           outcome (multiSemanticRelease C paths pm io s flags sch) \<noteq> Rejects cyclicError \<and>
           Log Failure cyclicMessage \<notin> set (events (multiSemanticRelease C paths pm io s flags sch)) \<and>
           GetSynchronizer \<in> set (events (multiSemanticRelease C paths pm io s flags sch)))"
proof (cases rule: run_cases [where C=C and paths=paths and pm=pm and s=s and io=io and flags=flags and sch=sch])
  case (params e)
  then show ?thesis using assms by simp
next
  case (loading e)
  then show ?thesis using assms by simp
next
  case (cyclic loaded')
  then have "loaded' = loaded" using assms by simp
  then show ?thesis using cyclic orchestrator_events(1) [of "sourcesOf paths pm"]
      orchestrator_events(2) [of "linkLocalDeps loaded"] orchestrator_events(4)
    by simp
next
  case (released loaded')
  then have eq: "loaded' = loaded" using assms by simp
  let ?st = "releaseAll C (contextOf C io s) flags (linkLocalDeps loaded) sch"
  let ?pre = "loadingEvents (sourcesOf paths pm) @ linkedEvents (linkLocalDeps loaded) @
                 queuedEvents (linkLocalDeps loaded)"
  have r: "multiSemanticRelease C paths pm io s flags sch = finish ?pre ?st"
    using released(4) eq by simp
  have 1: "outcome (finish ?pre ?st) \<noteq> Rejects cyclicError"
  proof
    assume "outcome (finish ?pre ?st) = Rejects cyclicError"
    then have "joined ?st = Some (Inl cyclicError)"
      by (simp add: finish_def Let_def split: option.splits sum.splits)
    then show False using joined_rejection_pipeline by (fastforce simp: cyclicError_def)
  qed
  have set: "set (events (finish ?pre ?st)) \<subseteq> set ?pre \<union> set (trace ?st) \<union> {e. \<exists>k n. e = Log Complete (releasedMessage k n)}"
    by (auto simp: finish_def Let_def split: option.splits sum.splits)
  have "Log Failure cyclicMessage \<notin> set ?pre"
    by (auto simp: loadingEvents_def linkedEvents_def queuedEvents_def)
  moreover have "Log Failure cyclicMessage \<notin> set (trace ?st)"
    using taskEvents_releaseAll by (rule task_not_summary)
  ultimately have 2: "Log Failure cyclicMessage \<notin> set (events (finish ?pre ?st))"
    using set by auto
  have 3: "GetSynchronizer \<in> set (events (finish ?pre ?st))"
    by (simp add: finish_def Let_def queuedEvents_def split: option.splits sum.splits)
  show ?thesis unfolding r using 1 2 3 released(3) eq by blast
qed

lemma length_loadPackages:
  "loadPackages C mc sources = Inr loaded \<Longrightarrow> length loaded = length sources"
  unfolding loadPackages_def by (drule length_allOrFirstError) simp

lemma fulfilled_results:
  assumes "list_all (\<lambda>t. t = Fulfilled) (tasks (releaseAll C mc flags pkgs sch))"
  shows "\<forall>p \<in> set (packages (releaseAll C mc flags pkgs sch)). \<exists>x. result p = resultValue x"
proof
  let ?st = "releaseAll C mc flags pkgs sch"
  fix p assume "p \<in> set (packages ?st)"
  then obtain i where i: "i < length (packages ?st)" "p = packages ?st ! i"
    by (metis in_set_conv_nth)
  have inv: "resultInv pkgs ?st" by (rule resultInv_releaseAll)
  have len: "length (packages ?st) = length pkgs" using inv by (simp add: resultInv_def)
  have lt: "length (tasks ?st) = length pkgs"
    using gateInv_def releaseAll_induct [of "\<lambda>st. True" pkgs C mc flags sch] by simp
  have "tasks ?st ! i = Fulfilled" using assms i len lt by (simp add: list_all_length)
  moreover have "if tasks ?st ! i = Fulfilled then \<exists>x. result (packages ?st ! i) = resultValue x
          else result (packages ?st ! i) = result (pkgs ! i)"
    using inv i len unfolding resultInv_def by simp
  ultimately show "\<exists>x. result p = resultValue x" using i by simp
qed

lemma run_trace_outcome:
  "(\<forall>ps. outcome (multiSemanticRelease C paths pm io s flags sch) = Resolves ps \<longrightarrow>
      firstRejection (events (multiSemanticRelease C paths pm io s flags sch)) = None \<and>
      length ps = length (sourcesOf paths pm) \<and>
      (\<forall>p \<in> set ps. \<exists>x. result p = resultValue x) \<and>
      last (events (multiSemanticRelease C paths pm io s flags sch)) =
        Log Complete (releasedMessage (length (filter (\<lambda>p. truthy (result p)) ps)) (length ps))) \<and>
   (\<forall>e. firstRejection (events (multiSemanticRelease C paths pm io s flags sch)) = Some e \<longrightarrow>
      outcome (multiSemanticRelease C paths pm io s flags sch) = Rejects e \<and>
      (\<forall>k n. Log Complete (releasedMessage k n)
         \<notin> set (events (multiSemanticRelease C paths pm io s flags sch))))"
proof (cases rule: run_cases [where C=C and paths=paths and pm=pm and s=s and io=io and flags=flags and sch=sch])
  case (params e)
  then show ?thesis by simp
next
  case (loading e)
  have "firstRejection (loadingEvents (sourcesOf paths pm) @ []) = firstRejection []"
    by (rule orchestrator_no_rejection) (rule orchestrator_events)
  then show ?thesis using loading by simp
next
  case (cyclic loaded)
  have "list_all isOrchestratorEvent (loadingEvents (sourcesOf paths pm) @
      linkedEvents (linkLocalDeps loaded) @ [Log Failure cyclicMessage])"
    using orchestrator_events(1) [of "sourcesOf paths pm"]
      orchestrator_events(2) [of "linkLocalDeps loaded"] orchestrator_events(4) by simp
  from orchestrator_no_rejection [OF this, of "[]"]
  show ?thesis using cyclic by simp
next
  case (released loaded)
  let ?pkgs = "linkLocalDeps loaded"
  let ?st = "releaseAll C (contextOf C io s) flags ?pkgs sch"
  let ?pre = "loadingEvents (sourcesOf paths pm) @ linkedEvents ?pkgs @ queuedEvents ?pkgs"
  note r = released(4)
  have pre: "list_all isOrchestratorEvent ?pre"
    using orchestrator_events(1) [of "sourcesOf paths pm"]
      orchestrator_events(2) [of ?pkgs] orchestrator_events(3) [of ?pkgs] by simp
  have J: "joined ?st = joinedOf ?st" by (rule joined_releaseAll)
  have fr: "firstRejection (loadingEvents (sourcesOf paths pm) @ linkedEvents ?pkgs @
      queuedEvents ?pkgs @ xs) = firstRejection xs" for xs
    using orchestrator_no_rejection [OF pre, of xs] by simp
  have nolog: "Log Complete (releasedMessage k n) \<notin> set ?pre \<union> set (trace ?st)" for k n
    using orchestrator_not_summary [OF pre] task_not_summary [OF taskEvents_releaseAll] by simp
  show ?thesis
  proof (cases "firstRejection (trace ?st)")
    case (Some e)
    then have j: "joined ?st = Some (Inl e)" using J by (simp add: joinedOf_def)
    have o: "outcome (finish ?pre ?st) = Rejects e" "events (finish ?pre ?st) = ?pre @ trace ?st"
      using j by (simp_all add: finish_def)
    show ?thesis unfolding r o using Some nolog by (simp add: fr)
  next
    case None
    show ?thesis
    proof (cases "list_all (\<lambda>t. t = Fulfilled) (tasks ?st)")
      case True
      then have j: "joined ?st = Some (Inr ())" using J None by (simp add: joinedOf_def)
      let ?n = "length (filter (\<lambda>p. truthy (result p)) (packages ?st))"
      have o: "outcome (finish ?pre ?st) = Resolves (packages ?st)"
        "events (finish ?pre ?st) = ?pre @ trace ?st @
           [Log Complete (releasedMessage ?n (length (packages ?st)))]"
        using j by (simp_all add: finish_def Let_def)
      have len: "length (packages ?st) = length (sourcesOf paths pm)"
        using resultInv_releaseAll [of ?pkgs C "contextOf C io s" flags sch]
          length_loadPackages [OF released(2)] by (simp add: resultInv_def)
      have fr': "firstRejection (loadingEvents (sourcesOf paths pm) @ linkedEvents ?pkgs @
          queuedEvents ?pkgs @ trace ?st @ [Log Complete m]) = None" for m
        unfolding fr using None by (simp add: firstRejection_append)
      show ?thesis unfolding r o using fulfilled_results [OF True] len fr' by simp
    next
      case False
      then have j: "joined ?st = None" using J None by (simp add: joinedOf_def)
      have o: "outcome (finish ?pre ?st) = Pending" "events (finish ?pre ?st) = ?pre @ trace ?st"
        using j by (simp_all add: finish_def)
      show ?thesis unfolding r o using None by (simp add: fr)
    qed
  qed
qed

section \<open>Options and packages of a run\<close>

lemma getPackage_Inr:
  assumes "getPackage C mc src = Inr pkg"
  shows "options pkg = fst (getConfigSemantic C ((mcSettings mc)\<lparr>cwd := dir pkg\<rparr>)
           (finalOptions (globalOptions mc) (getConfig C (dir pkg)) (inputOptions mc)))"
    and "result pkg = JUndefined" and "localDeps pkg = []"
    and "deps pkg = depNames (manifest pkg)"
    and "getProp (manifest pkg) ''name'' = JStr (name pkg)"
  using assms unfolding getPackage_def Let_def
  by (auto split: sum.splits prod.splits if_splits jsval.splits)

lemma map_of_finalOptions:
  assumes "distinct (map fst g)" "distinct (map fst p)" "distinct (map fst i)"
  shows "map_of (finalOptions g p i) = map_of g ++ map_of p ++ map_of i"
  using assms by (simp add: finalOptions_def map_of_assign)

lemma map_of_releaseOptions:
  assumes "distinct (map fst flags)" "distinct (map fst (options pkg))" "distinct (map fst inl)"
    and "k \<noteq> ''tagFormat''" "k \<noteq> ''_pkgOptions''"
  shows "map_of (releaseOptions flags pkg inl) k = (map_of flags ++ map_of (options pkg) ++ map_of inl) k"
  using assms by (simp add: releaseOptions_def Let_def update_conv' map_of_assign)

lemma engine_call_options:
  assumes "SemanticRelease j opts ctx \<in> set (trace (releaseAll C mc flags pkgs sch))"
  shows "j < length pkgs" "ctx = releaseContext mc (pkgs ! j)"
    "\<exists>ps. opts = releaseOptions flags (pkgs ! j) (createInlinePlugin C ps flags (pkgs ! j))"
  using assms callsInv_releaseAll [of C mc flags pkgs sch] unfolding callsInv_def by blast+

lemma packages_wake [simp]: "packages (wake C mc flags i st) = packages st"
  by (simp add: wake_def)

lemma packages_spawn [simp]: "packages (spawn C mc flags i st) = packages st"
  by (simp add: spawn_def)

lemma packages_spawnAll: "packages (spawnAll C mc flags pkgs) = pkgs"
proof -
  have 1: "packages (fold (spawn C mc flags) is st) = packages st" for "is" st
    by (induction "is" arbitrary: st) simp_all
  have 2: "packages (fold (wake C mc flags) is st) = packages st" for "is" st
    by (induction "is" arbitrary: st) simp_all
  show ?thesis by (simp add: spawnAll_def 1 2 initialState_def)
qed

lemma packages_step:
  "packages (step C mc flags occ st) = packages st \<or>
   (\<exists>i x. occ = Settles i (Inr x) \<and> i < length (tasks st) \<and> tasks st ! i = AwaitingEngine \<and>
      packages (step C mc flags occ st) = (packages st)[i := (packages st ! i)\<lparr>result := resultValue x\<rparr>])"
proof (cases occ)
  case (Signals i)
  then show ?thesis by (simp add: step_def)
next
  case (Settles i res)
  then show ?thesis by (cases res) (simp_all add: step_def settle_def)
qed

lemma result_writes:
  "(getPackage C mc src = Inr pkg \<longrightarrow> result pkg = JUndefined) \<and>
   (i < length pkgs \<longrightarrow>
      (if tasks (releaseAll C mc flags pkgs sch) ! i = Fulfilled
       then \<exists>x. writesOf i (trace (releaseAll C mc flags pkgs sch)) = [SetResult i (resultValue x)] \<and>
                result (packages (releaseAll C mc flags pkgs sch) ! i) = resultValue x
       else writesOf i (trace (releaseAll C mc flags pkgs sch)) = [] \<and>
            result (packages (releaseAll C mc flags pkgs sch) ! i) = result (pkgs ! i))) \<and>
   (packages (step C mc flags occ st) = packages st \<or>
    (\<exists>j x. occ = Settles j (Inr x) \<and> j < length (tasks st) \<and> tasks st ! j = AwaitingEngine \<and>
       packages (step C mc flags occ st) = (packages st)[j := (packages st ! j)\<lparr>result := resultValue x\<rparr>])) \<and>
   packages (spawnAll C mc flags pkgs) = pkgs"
proof -
  let ?st = "releaseAll C mc flags pkgs sch"
  have inv: "resultInv pkgs ?st" by (rule resultInv_releaseAll)
  have 2: "if tasks ?st ! i = Fulfilled
       then \<exists>x. writesOf i (trace ?st) = [SetResult i (resultValue x)] \<and>
                result (packages ?st ! i) = resultValue x
       else writesOf i (trace ?st) = [] \<and> result (packages ?st ! i) = result (pkgs ! i)"
    if i: "i < length pkgs"
  proof -
    have w: "writesOf i (trace ?st) =
         (if i < length pkgs \<and> tasks ?st ! i = Fulfilled
          then [SetResult i (result (packages ?st ! i))] else [])"
      using inv unfolding resultInv_def by blast
    have r: "if tasks ?st ! i = Fulfilled then \<exists>x. result (packages ?st ! i) = resultValue x
          else result (packages ?st ! i) = result (pkgs ! i)"
      using inv i unfolding resultInv_def by blast
    show ?thesis
    proof (cases "tasks ?st ! i = Fulfilled")
      case True
      then obtain x where "result (packages ?st ! i) = resultValue x" using r by auto
      then show ?thesis using True w i by auto
    next
      case False
      then show ?thesis using w r by simp
    qed
  qed
  show ?thesis using getPackage_Inr(2) 2 packages_step packages_spawnAll by blast
qed

section \<open>Setting a value at a path\<close>

lemma independentPaths_snoc:
  "independentPaths (ps @ [p]) \<longleftrightarrow>
     independentPaths ps \<and> list_all (\<lambda>q. \<not> prefix p q \<and> \<not> prefix q p) ps"
  by (induction ps) auto

lemma getProp_assignValue_same:
  "isObjectlike nested \<Longrightarrow> getProp (assignValue k v nested) k = v"
  by (cases nested) (simp_all add: getOwn_def update_conv')

lemma getProp_assignValue_other:
  "k' \<noteq> k \<Longrightarrow> getProp (assignValue k v nested) k' = getProp nested k'"
  by (cases nested) (simp_all add: getOwn_def update_conv')

lemma isObjectlike_assignValue [simp]:
  "isObjectlike (assignValue k v nested) = isObjectlike nested"
  by (cases nested) simp_all

lemma assignValue_primitive: "\<not> isObjectlike nested \<Longrightarrow> assignValue k v nested = nested"
  by (cases nested) simp_all

lemma getProp_primitive: "\<not> isObjectlike v \<Longrightarrow> getProp v k = JUndefined"
  by (cases v) simp_all

lemma isObjectlike_baseSet [simp]:
  "isObjectlike (baseSet ks v nested) = isObjectlike nested"
  by (induction ks v nested rule: baseSet.induct) (simp_all add: Let_def)

lemma getPath_baseSet_same:
  "ks \<noteq> [] \<Longrightarrow> \<forall>k \<in> set ks. \<not> unsafeKey k \<Longrightarrow> isObjectlike nested \<Longrightarrow>
   getPath ks (baseSet ks v nested) = v"
proof (induction ks v nested rule: baseSet.induct)
  case (1 v nested)
  then show ?case by simp
next
  case (2 k v nested)
  then show ?case by (simp add: getProp_assignValue_same)
next
  case (3 k k' ks v nested)
  let ?new = "if isObjectlike (getProp nested k) then getProp nested k
              else if isIndex k' then JArr [] else JObj []"
  have obj: "isObjectlike ?new" by simp
  have "getPath (k' # ks) (baseSet (k' # ks) v ?new) = v"
    using 3 obj by (intro "3.IH") auto
  then show ?case using 3
    by (simp add: Let_def getProp_assignValue_same del: baseSet.simps(3) getPath.simps)
      (simp add: Let_def getProp_assignValue_same)
qed

lemma getPath_empty_container:
  "qs \<noteq> [] \<Longrightarrow> \<not> isObjectlike v \<Longrightarrow>
   getPath qs (if isIndex k' then JArr [] else JObj []) = getPath qs v"
  by (cases qs) (simp_all add: getProp_primitive getOwn_def)

lemma getPath_baseSet_other:
  "\<not> prefix p q \<Longrightarrow> \<not> prefix q p \<Longrightarrow> getPath q (baseSet p v nested) = getPath q nested"
proof (induction p v nested arbitrary: q rule: baseSet.induct)
  case (1 v nested)
  then show ?case by simp
next
  case (2 k v nested)
  then obtain k2 qs where q: "q = k2 # qs" "k2 \<noteq> k" by (cases q) auto
  then show ?case by (simp add: getProp_assignValue_other)
next
  case (3 k k' ks v nested)
  then obtain k2 qs where q: "q = k2 # qs" by (cases q) auto
  let ?obj = "getProp nested k"
  let ?new = "if isObjectlike ?obj then ?obj else if isIndex k' then JArr [] else JObj []"
  show ?case
  proof (cases "unsafeKey k")
    case True
    then show ?thesis by simp
  next
    case safe: False
    show ?thesis
    proof (cases "k2 = k")
      case False
      then show ?thesis using q safe by (simp add: Let_def getProp_assignValue_other)
    next
      case True
      then have np: "\<not> prefix (k' # ks) qs" "\<not> prefix qs (k' # ks)"
        using "3.prems" q by simp_all
      then have qs: "qs \<noteq> []" by auto
      show ?thesis
      proof (cases "isObjectlike nested")
        case False
        then show ?thesis using safe by (simp add: Let_def assignValue_primitive)
      next
        case obj: True
        have "getPath qs (baseSet (k' # ks) v ?new) = getPath qs ?new"
          using safe np by (intro "3.IH") simp_all
        also have "\<dots> = getPath qs ?obj"
          using getPath_empty_container [OF qs, of ?obj k'] by simp
        finally show ?thesis using safe obj q True
          by (simp add: Let_def getProp_assignValue_same del: baseSet.simps(3))
            (simp add: Let_def getProp_assignValue_same)
      qed
    qed
  qed
qed

lemma splitOn_nonempty [simp]: "splitOn c s \<noteq> []"
  by (induction s) (auto split: list.splits)

lemma toPath_nonempty [simp]: "toPath k \<noteq> []"
  by (simp add: toPath_def)

lemma processFlag_Inr:
  assumes "processFlag acc (k, v) = Inr m'"
  shows "\<exists>m. acc = Inr m \<and> m' = lodashSet m k (storedValue k v) \<and>
     (k = ''ignorePackages'' \<and> truthy v \<longrightarrow> isString v)"
  using assms unfolding processFlag_def storedValue_def
  by (cases acc; cases v) (auto split: if_splits sum.splits)

lemma processFlags_snoc:
  "processFlags (flags @ [kv]) = processFlag (processFlags flags) kv"
  by (simp add: processFlags_def)

lemma processFlags_reads:
  assumes "independentPaths (map (\<lambda>kv. toPath (fst kv)) flags)"
    and "\<forall>kv \<in> set flags. \<forall>seg \<in> set (toPath (fst kv)). \<not> unsafeKey seg"
    and "processFlags flags = Inr m"
  shows "isObjectlike m \<and> (\<forall>kv \<in> set flags. getPath (toPath (fst kv)) m = storedValue (fst kv) (snd kv) \<and>
     (fst kv = ''ignorePackages'' \<and> truthy (snd kv) \<longrightarrow> isString (snd kv)))"
  using assms
proof (induction flags arbitrary: m rule: rev_induct)
  case Nil
  then have "m = JObj []" by (simp add: processFlags_def)
  then show ?case by simp
next
  case (snoc kv flags)
  obtain k v where kv: "kv = (k, v)" by (cases kv)
  from snoc.prems(3) obtain m0 where m0: "processFlags flags = Inr m0"
    and m: "m = lodashSet m0 k (storedValue k v)"
    and str: "k = ''ignorePackages'' \<and> truthy v \<longrightarrow> isString v"
    using processFlag_Inr [of "processFlags flags" k v m] by (auto simp: processFlags_snoc kv)
  have ind: "independentPaths (map (\<lambda>kv. toPath (fst kv)) flags)"
    and inc: "list_all (\<lambda>q. \<not> prefix (toPath k) q \<and> \<not> prefix q (toPath k)) (map (\<lambda>kv. toPath (fst kv)) flags)"
    using snoc.prems(1) by (simp_all add: independentPaths_snoc kv)
  have safe: "\<forall>kv \<in> set flags. \<forall>seg \<in> set (toPath (fst kv)). \<not> unsafeKey seg"
    and safek: "\<forall>seg \<in> set (toPath k). \<not> unsafeKey seg"
    using snoc.prems(2) by (simp_all add: kv)
  have IH: "isObjectlike m0" "\<forall>kv \<in> set flags. getPath (toPath (fst kv)) m0 = storedValue (fst kv) (snd kv) \<and>
     (fst kv = ''ignorePackages'' \<and> truthy (snd kv) \<longrightarrow> isString (snd kv))"
    using snoc.IH [OF ind safe m0] by simp_all
  have 1: "isObjectlike m" using IH(1) by (simp add: m lodashSet_def)
  have 2: "getPath (toPath k) m = storedValue k v"
    unfolding m lodashSet_def using safek IH(1) by (intro getPath_baseSet_same) simp_all
  have 3: "getPath (toPath (fst kv')) m = storedValue (fst kv') (snd kv')" if "kv' \<in> set flags" for kv'
  proof -
    have "\<not> prefix (toPath k) (toPath (fst kv')) \<and> \<not> prefix (toPath (fst kv')) (toPath k)"
      using inc that by (auto simp: list_all_iff)
    then have "getPath (toPath (fst kv')) m = getPath (toPath (fst kv')) m0"
      unfolding m lodashSet_def by (intro getPath_baseSet_other) simp_all
    then show ?thesis using IH(2) that by simp
  qed
  show ?case using 1 2 3 str IH(2) by (auto simp: kv)
qed

section \<open>The cycle detector finds exactly the cycles\<close>

lemma set_pruneRound: "set (pruneRound pkgs present) \<subseteq> set present"
  by (auto simp: pruneRound_def)

lemma pruneRound_fixpoint_or_shorter:
  "pruneRound pkgs xs = xs \<or> length (pruneRound pkgs xs) < length xs"
proof (cases "\<forall>i \<in> set xs. list_ex (\<lambda>j. j \<in> set xs) (localDeps (pkgs ! i))")
  case True
  then show ?thesis by (simp add: pruneRound_def)
next
  case False
  then obtain i where "i \<in> set xs" "\<not> list_ex (\<lambda>j. j \<in> set xs) (localDeps (pkgs ! i))" by blast
  then show ?thesis unfolding pruneRound_def by (intro disjI2 length_filter_less)
qed

lemma rounds:
  "pruneRound pkgs ((pruneRound pkgs ^^ k) xs) = (pruneRound pkgs ^^ k) xs \<or>
   length ((pruneRound pkgs ^^ k) xs) + k \<le> length xs"
proof (induction k)
  case 0
  then show ?case by simp
next
  case (Suc k)
  let ?F = "(pruneRound pkgs ^^ k) xs"
  show ?case
  proof (cases "pruneRound pkgs ?F = ?F")
    case True
    then show ?thesis by simp
  next
    case False
    then have "length (pruneRound pkgs ?F) < length ?F"
      using pruneRound_fixpoint_or_shorter [of pkgs ?F] by simp
    moreover have "length ?F + k \<le> length xs" using Suc False by simp
    ultimately show ?thesis by simp
  qed
qed

lemma residual_fixpoint: "pruneRound pkgs (residual pkgs) = residual pkgs"
proof -
  have "pruneRound pkgs (residual pkgs) = residual pkgs \<or> length (residual pkgs) = 0"
    using rounds [where pkgs=pkgs and k="length pkgs" and xs="[0..<length pkgs]"]
    by (simp add: residual_def)
  then show ?thesis
  proof
    assume "length (residual pkgs) = 0"
    then have "residual pkgs = []" by simp
    then show ?thesis by (simp add: pruneRound_def)
  qed
qed

lemma set_rounds: "set ((pruneRound pkgs ^^ k) xs) \<subseteq> set xs"
  by (induction k) (use set_pruneRound in auto)

lemma residual_bound: "i \<in> set (residual pkgs) \<Longrightarrow> i < length pkgs"
  using set_rounds [where pkgs=pkgs and k="length pkgs" and xs="[0..<length pkgs]"]
  by (auto simp: residual_def)

lemma residual_successor:
  assumes "i \<in> set (residual pkgs)"
  shows "\<exists>j \<in> set (residual pkgs). (i, j) \<in> depEdges pkgs"
proof -
  have "\<forall>i \<in> set (residual pkgs). list_ex (\<lambda>j. j \<in> set (residual pkgs)) (localDeps (pkgs ! i))"
    using residual_fixpoint [of pkgs] unfolding pruneRound_def by (simp add: filter_id_conv)
  then obtain j where "j \<in> set (residual pkgs)" "j \<in> set (localDeps (pkgs ! i))"
    using assms by (auto simp: list_ex_iff)
  then show ?thesis using assms residual_bound by (auto simp: depEdges_def)
qed

lemma cycle_survives:
  assumes "(x, x) \<in> (depEdges pkgs)\<^sup>+"
  shows "{y. (x, y) \<in> (depEdges pkgs)\<^sup>+ \<and> (y, x) \<in> (depEdges pkgs)\<^sup>+}
     \<subseteq> set ((pruneRound pkgs ^^ k) [0..<length pkgs])"
    (is "?S \<subseteq> _")
proof (induction k)
  case 0
  have "y < length pkgs" if "(y, x) \<in> (depEdges pkgs)\<^sup>+" for y
    using that by (induction rule: converse_trancl_induct) (auto simp: depEdges_def)
  then show ?case by auto
next
  case (Suc k)
  let ?F = "(pruneRound pkgs ^^ k) [0..<length pkgs]"
  have "y \<in> set (pruneRound pkgs ?F)" if y: "y \<in> ?S" for y
  proof -
    from y have "(y, x) \<in> (depEdges pkgs)\<^sup>+" by simp
    then obtain z where z: "(y, z) \<in> depEdges pkgs" "(z, x) \<in> (depEdges pkgs)\<^sup>*"
      by (meson tranclD)
    have "(x, z) \<in> (depEdges pkgs)\<^sup>+" using y z(1) by (auto intro: trancl_into_trancl)
    moreover have "(z, x) \<in> (depEdges pkgs)\<^sup>+"
    proof (cases "z = x")
      case True
      then show ?thesis using assms by simp
    next
      case False
      then show ?thesis using z(2) by (auto dest: rtranclD)
    qed
    ultimately have "z \<in> ?S" by simp
    then have "z \<in> set ?F" "y \<in> set ?F" using Suc y by auto
    moreover have "z \<in> set (localDeps (pkgs ! y))" using z(1) by (simp add: depEdges_def)
    ultimately show ?thesis by (auto simp: pruneRound_def list_ex_iff)
  qed
  then show ?case by auto
qed

lemma isCyclicProject_iff: "isCyclicProject pkgs \<longleftrightarrow> \<not> acyclic (depEdges pkgs)"
proof
  assume "isCyclicProject pkgs"
  then have ne: "residual pkgs \<noteq> []" by (simp add: isCyclicProject_def)
  let ?E = "depEdges pkgs \<inter> (set (residual pkgs) \<times> set (residual pkgs))"
  show "\<not> acyclic (depEdges pkgs)"
  proof
    assume "acyclic (depEdges pkgs)"
    then have "acyclic ?E" by (rule acyclic_subset) simp
    then have "acyclic (?E\<inverse>)" by simp
    moreover have "finite (?E\<inverse>)" by simp
    ultimately have wf: "wf (?E\<inverse>)" by (simp add: finite_acyclic_wf)
    obtain z0 where z0: "z0 \<in> set (residual pkgs)"
      using ne by (cases "residual pkgs") auto
    have "\<exists>z \<in> set (residual pkgs). \<forall>y. (y, z) \<in> ?E\<inverse> \<longrightarrow> y \<notin> set (residual pkgs)"
      using wf z0 unfolding wf_eq_minimal by blast
    then obtain z where z: "z \<in> set (residual pkgs)"
      "\<forall>y. (y, z) \<in> ?E\<inverse> \<longrightarrow> y \<notin> set (residual pkgs)" by blast
    from residual_successor [OF z(1)] obtain j where j: "j \<in> set (residual pkgs)" "(z, j) \<in> depEdges pkgs"
      by blast
    have "(j, z) \<in> ?E\<inverse>" using j z(1) by simp
    then have "j \<notin> set (residual pkgs)" using z(2) by blast
    then show False using j(1) by simp
  qed
next
  assume "\<not> acyclic (depEdges pkgs)"
  then obtain x where x: "(x, x) \<in> (depEdges pkgs)\<^sup>+" by (auto simp: acyclic_def)
  then have "x \<in> set (residual pkgs)"
    using cycle_survives [OF x, where k="length pkgs"] by (auto simp: residual_def)
  then show "isCyclicProject pkgs" by (auto simp: isCyclicProject_def)
qed

section \<open>Flags are always processed\<close>

lemma processFlags_total:
  "\<forall>kv \<in> set flags. fst kv = ''ignorePackages'' \<and> truthy (snd kv) \<longrightarrow> isString (snd kv) \<Longrightarrow>
   \<exists>m. processFlags flags = Inr m"
proof (induction flags rule: rev_induct)
  case Nil
  then show ?case by (simp add: processFlags_def)
next
  case (snoc kv flags)
  then obtain m where m: "processFlags flags = Inr m" by auto
  have s: "fst kv = ''ignorePackages'' \<and> truthy (snd kv) \<longrightarrow> isString (snd kv)"
    using snoc.prems by simp
  show ?case
  proof (cases "fst kv = ''ignorePackages'' \<and> truthy (snd kv)")
    case True
    then obtain str where "snd kv = JStr str" using s by (cases "snd kv") auto
    then show ?thesis using True m by (simp add: processFlags_snoc processFlag_def)
  next
    case False
    then show ?thesis using m by (auto simp: processFlags_snoc processFlag_def)
  qed
qed

section \<open>The example run\<close>

lemma example_params: "checkParams exampleCollaborators JUndefined exampleManifests exampleSettings = None"
  by code_simp

lemma example_loaded:
  "loadPackages exampleCollaborators (contextOf exampleCollaborators [] exampleSettings)
     (sourcesOf JUndefined exampleManifests) = Inr [packageA, packageB]"
  by code_simp

lemma example_cyclic: "isCyclicProject (linkLocalDeps [packageA, packageB])"
  by code_simp

section \<open>A task depends on its own occurrences only\<close>

lemma length_packages_step [simp]:
  "length (packages (step C mc flags occ st)) = length (packages st)"
  using packages_step [of C mc flags occ st] by auto

lemma unit_step:
  assumes "i < length (tasks st)" "length (packages st) = length (tasks st)"
  shows "(tasks (step C mc flags occ st) ! i, result (packages (step C mc flags occ st) ! i))
     = unitStep i occ (tasks st ! i, result (packages st ! i))"
proof (cases occ)
  case (Signals j)
  have h: "hasArrived readyForRelease j (releaseUnit readyForRelease j (sync st))"
    by (simp add: hasArrived_def releaseUnit_def)
  show ?thesis
    using assms h
    by (cases "j = i") (simp_all add: Signals step_def wake_def tasks_startRelease nth_list_update)
next
  case (Settles j x)
  show ?thesis
    using assms
    by (cases "j = i"; cases x) (simp_all add: Settles step_def settle_def nth_list_update)
qed

lemma unit_fold:
  assumes "i < length (tasks st)" "length (packages st) = length (tasks st)"
  shows "(tasks (fold (step C mc flags) sch st) ! i, result (packages (fold (step C mc flags) sch st) ! i))
     = fold (unitStep i) sch (tasks st ! i, result (packages st ! i))"
  using assms
proof (induction sch arbitrary: st)
  case Nil
  then show ?case by simp
next
  case (Cons occ sch)
  have "(tasks (fold (step C mc flags) sch (step C mc flags occ st)) ! i,
         result (packages (fold (step C mc flags) sch (step C mc flags occ st)) ! i))
    = fold (unitStep i) sch (tasks (step C mc flags occ st) ! i, result (packages (step C mc flags occ st) ! i))"
    using Cons.prems by (intro Cons.IH) simp_all
  then show ?case using unit_step [OF Cons.prems, of C mc flags occ] by simp
qed

lemma unit_fold_engine:
  "fold (unitStep i) sch (AwaitingEngine, v) =
     (case firstSettlement i sch of
        None \<Rightarrow> (AwaitingEngine, v)
      | Some (Inl reason) \<Rightarrow> (Rejected (PipelineError reason), v)
      | Some (Inr r) \<Rightarrow> (Fulfilled, resultValue r))"
proof -
  have fin: "fold (unitStep i) sch (t, w) = (t, w)"
    if "t \<noteq> AwaitingEngine" "t \<noteq> AwaitingSignal" for t w sch
    using that
  proof (induction sch)
    case Nil
    then show ?case by simp
  next
    case (Cons occ sch)
    then show ?case by (cases occ) simp_all
  qed
  show ?thesis
  proof (induction sch)
    case Nil
    then show ?case by simp
  next
    case (Cons occ sch)
    show ?case
    proof (cases occ)
      case (Signals j)
      then show ?thesis using Cons by simp
    next
      case (Settles j x)
      show ?thesis
      proof (cases "j = i")
        case True
        then show ?thesis using Settles fin by (cases x) simp_all
      next
        case False
        then show ?thesis using Settles Cons by simp
      qed
    qed
  qed
qed

lemma unit_fold_signal:
  "fold (unitStep i) sch (AwaitingSignal, v) =
     (if Signals i \<in> set sch
      then fold (unitStep i) (drop 1 (dropWhile (\<lambda>occ. occ \<noteq> Signals i) sch)) (AwaitingEngine, v)
      else (AwaitingSignal, v))"
proof (induction sch)
  case Nil
  then show ?case by simp
next
  case (Cons occ sch)
  show ?case
  proof (cases occ)
    case (Signals j)
    then show ?thesis using Cons by (cases "j = i") simp_all
  next
    case (Settles j x)
    then show ?thesis using Cons by simp
  qed
qed

lemma tasks_spawnAll:
  assumes "i < length pkgs"
  shows "tasks (spawnAll C mc flags pkgs) ! i = (if gated flags i then AwaitingSignal else AwaitingEngine)"
proof (cases "truthy (getOwn flags ''sequentialInit'')")
  case True
  have ne: "pkgs \<noteq> []" using assms by auto
  have "tasks (fold (spawn C mc flags) [0..<length pkgs] (initialState pkgs)) = replicate (length pkgs) AwaitingSignal"
    using gated_phase [OF True, of "length pkgs" pkgs C mc] by (simp add: Let_def)
  then show ?thesis
    unfolding spawnAll_gated [OF True ne] using assms True
    by (cases i) (simp_all add: tasks_startRelease gated_def)
next
  case False
  have "tasks (fold (spawn C mc flags) [0..<length pkgs] (initialState pkgs)) = replicate (length pkgs) AwaitingEngine"
    using ungated_phase [OF False, of "length pkgs" pkgs C mc] by (simp add: Let_def)
  then show ?thesis
    unfolding spawnAll_ungated [OF False] using assms False by (simp add: gated_def)
qed

lemma length_tasks_spawnAll: "length (tasks (spawnAll C mc flags pkgs)) = length pkgs"
  using releaseAll_induct [of "\<lambda>st. True" pkgs C mc flags "[]"] by (simp add: releaseAll_def)

lemma unit_outcome:
  assumes "i < length pkgs"
  shows "tasks (releaseAll C mc flags pkgs sch) ! i = taskAfter flags i sch"
    and "result (packages (releaseAll C mc flags pkgs sch) ! i) = resultAfter flags i sch (result (pkgs ! i))"
proof -
  let ?s0 = "spawnAll C mc flags pkgs"
  have l: "i < length (tasks ?s0)" "length (packages ?s0) = length (tasks ?s0)"
    using assms by (simp_all add: length_tasks_spawnAll packages_spawnAll)
  have f: "(tasks (releaseAll C mc flags pkgs sch) ! i, result (packages (releaseAll C mc flags pkgs sch) ! i))
     = fold (unitStep i) sch (if gated flags i then AwaitingSignal else AwaitingEngine, result (pkgs ! i))"
    unfolding releaseAll_def unit_fold [OF l]
    by (simp only: tasks_spawnAll [OF assms] packages_spawnAll)
  have "fold (unitStep i) sch (if gated flags i then AwaitingSignal else AwaitingEngine, result (pkgs ! i))
     = (taskAfter flags i sch, resultAfter flags i sch (result (pkgs ! i)))"
  proof (cases "gated flags i")
    case False
    then show ?thesis
      by (simp add: unit_fold_engine taskAfter_def resultAfter_def settlementOf_def sinceStart_def
          started_def split: option.splits sum.splits)
  next
    case True
    show ?thesis
    proof (cases "Signals i \<in> set sch")
      case s: True
      then show ?thesis using True
        by (simp add: unit_fold_signal unit_fold_engine taskAfter_def resultAfter_def
            settlementOf_def sinceStart_def started_def split: option.splits sum.splits)
    next
      case s: False
      then have d: "dropWhile (\<lambda>occ. occ \<noteq> Signals i) sch = []" by auto
      show ?thesis using True s
        by (simp add: unit_fold_signal taskAfter_def resultAfter_def
            settlementOf_def sinceStart_def started_def d)
    qed
  qed
  then show "tasks (releaseAll C mc flags pkgs sch) ! i = taskAfter flags i sch"
    and "result (packages (releaseAll C mc flags pkgs sch) ! i) = resultAfter flags i sch (result (pkgs ! i))"
    using f by simp_all
qed

section \<open>The outcome of a run, read off the schedule\<close>

lemma rejectionInv_update:
  assumes inv: "rejectionInv pkgs st" and i: "i < length pkgs" "length (tasks st) = length pkgs"
    and old: "\<And>e. tasks st ! i \<noteq> Rejected e"
    and tk: "tasks st' = (tasks st)[i := t]"
    and tr: "trace st' = trace st @ new"
    and new: "\<And>j e. TaskRejected j e \<in> set new \<longleftrightarrow> j = i \<and> t = Rejected e"
  shows "rejectionInv pkgs st'"
  unfolding rejectionInv_def
proof (intro allI)
  fix j e
  have a: "TaskRejected j e \<in> set (trace st) \<longleftrightarrow> j < length pkgs \<and> tasks st ! j = Rejected e"
    using inv unfolding rejectionInv_def by blast
  show "TaskRejected j e \<in> set (trace st') \<longleftrightarrow> j < length pkgs \<and> tasks st' ! j = Rejected e"
  proof (cases "j = i")
    case True
    have "TaskRejected i e \<notin> set (trace st)" using a old True by simp
    then show ?thesis using True i new [of i e] by (simp add: tr tk)
  next
    case False
    then show ?thesis using a new [of j e] by (simp add: tr tk)
  qed
qed

lemma rejectionInv_releaseAll: "rejectionInv pkgs (releaseAll C mc flags pkgs sch)"
proof -
  have "rejectionInv pkgs (releaseAll C mc flags pkgs sch) \<and>
        length (tasks (releaseAll C mc flags pkgs sch)) = length pkgs"
  proof (rule releaseAll_induct, goal_cases)
    case 1
    then show ?case by (simp add: rejectionInv_def initialState_def)
  next
    case (2 i st)
    have n: "tasks st ! i \<noteq> Rejected e" for e using 2(4) by auto
    show ?case
      by (rule rejectionInv_update [OF 2(1) 2(3) 2(2) n, where t=AwaitingEngine
            and new="[CreateInlinePlugin i, SemanticRelease i
              (releaseOptions flags (packages st ! i) (createInlinePlugin C (packages st) flags (packages st ! i)))
              (releaseContext mc (packages st ! i))]"])
        (auto simp: startRelease_def Let_def)
  next
    case (3 i st)
    have n: "tasks st ! i \<noteq> Rejected e" for e using 3(4) by auto
    show ?case
      by (rule rejectionInv_update [OF 3(1) 3(3) 3(2) n, where t=AwaitingSignal
            and new="[GetLucky readyForRelease i, WaitFor readyForRelease i]"]) auto
  next
    case (4 i st)
    then show ?case by (simp add: rejectionInv_def)
  next
    case (5 i res st)
    have n: "tasks st ! i \<noteq> Rejected e" for e using 5(4) by auto
    have l: "i < length (tasks st)" using 5 by simp
    show ?case
    proof (cases res)
      case (Inl reason)
      show ?thesis
        by (rule rejectionInv_update [OF 5(1) 5(3) 5(2) n, where t="Rejected (PipelineError reason)"
            and new="[TaskRejected i (PipelineError reason)]"])
          (use l 5(4) in \<open>auto simp: settle_def Inl\<close>)
    next
      case (Inr r)
      show ?thesis
        by (rule rejectionInv_update [OF 5(1) 5(3) 5(2) n, where t=Fulfilled
            and new="[SetResult i (resultValue r)]"])
          (use l 5(4) in \<open>auto simp: settle_def Inr\<close>)
    qed
  qed
  then show ?thesis by simp
qed

lemma taskAfter_Rejected:
  "taskAfter flags i sch = Rejected e \<longleftrightarrow> (\<exists>reason. settlementOf flags i sch = Some (Inl reason) \<and> e = PipelineError reason)"
  by (auto simp: taskAfter_def split: option.splits sum.splits)

lemma taskAfter_Fulfilled:
  "taskAfter flags i sch = Fulfilled \<longleftrightarrow> (\<exists>r. settlementOf flags i sch = Some (Inr r))"
  by (auto simp: taskAfter_def split: option.splits sum.splits)

lemma rejected_events:
  "TaskRejected i e \<in> set (trace (releaseAll C mc flags pkgs sch)) \<longleftrightarrow>
     i < length pkgs \<and> (\<exists>reason. settlementOf flags i sch = Some (Inl reason) \<and> e = PipelineError reason)"
proof -
  have "TaskRejected i e \<in> set (trace (releaseAll C mc flags pkgs sch)) \<longleftrightarrow>
     i < length pkgs \<and> tasks (releaseAll C mc flags pkgs sch) ! i = Rejected e"
    using rejectionInv_releaseAll [of pkgs C mc flags sch] unfolding rejectionInv_def by blast
  also have "\<dots> \<longleftrightarrow> i < length pkgs \<and> taskAfter flags i sch = Rejected e"
    using unit_outcome(1) [of i pkgs C mc flags sch] by auto
  finally show ?thesis by (simp add: taskAfter_Rejected)
qed

lemma written_events:
  assumes "i < length pkgs"
  shows "writesOf i (trace (releaseAll C mc flags pkgs sch)) =
     (case settlementOf flags i sch of Some (Inr r) \<Rightarrow> [SetResult i (resultValue r)] | _ \<Rightarrow> [])"
proof -
  let ?st = "releaseAll C mc flags pkgs sch"
  have w: "writesOf i (trace ?st) =
      (if i < length pkgs \<and> tasks ?st ! i = Fulfilled then [SetResult i (result (packages ?st ! i))] else [])"
    using resultInv_releaseAll [of pkgs C mc flags sch] unfolding resultInv_def by blast
  show ?thesis
    unfolding w unit_outcome [OF assms]
    using assms
    by (simp add: taskAfter_def resultAfter_def split: option.splits sum.splits)
qed

lemma mem_writesOf: "SetResult i v \<in> set es \<longleftrightarrow> SetResult i v \<in> set (writesOf i es)"
  by (simp add: writesOf_def)

lemma result_events:
  assumes "i < length pkgs"
  shows "SetResult i v \<in> set (trace (releaseAll C mc flags pkgs sch)) \<longleftrightarrow>
     (\<exists>r. settlementOf flags i sch = Some (Inr r) \<and> v = resultValue r)"
proof -
  have "SetResult i v \<in> set (trace (releaseAll C mc flags pkgs sch)) \<longleftrightarrow>
      SetResult i v \<in> set (writesOf i (trace (releaseAll C mc flags pkgs sch)))"
    by (rule mem_writesOf)
  also have "\<dots> \<longleftrightarrow> (\<exists>r. settlementOf flags i sch = Some (Inr r) \<and> v = resultValue r)"
    unfolding written_events [OF assms]
    by (cases "settlementOf flags i sch" rule: option.exhaust [case_names None Some])
      (auto split: sum.splits)
  finally show ?thesis .
qed

lemma length_tasks_releaseAll: "length (tasks (releaseAll C mc flags pkgs sch)) = length pkgs"
  using releaseAll_induct [of "\<lambda>st. True" pkgs C mc flags sch] by simp

lemma packages_of_schedule:
  "packages (releaseAll C mc flags pkgs sch) =
     map (\<lambda>i. (pkgs ! i)\<lparr>result := resultAfter flags i sch (result (pkgs ! i))\<rparr>) [0..<length pkgs]"
proof (rule nth_equalityI)
  let ?st = "releaseAll C mc flags pkgs sch"
  have inv: "resultInv pkgs ?st" by (rule resultInv_releaseAll)
  show "length (packages ?st) =
      length (map (\<lambda>i. (pkgs ! i)\<lparr>result := resultAfter flags i sch (result (pkgs ! i))\<rparr>) [0..<length pkgs])"
    using inv by (simp add: resultInv_def)
  fix i assume "i < length (packages ?st)"
  then have i: "i < length pkgs" using inv by (simp add: resultInv_def)
  have "packages ?st ! i = (pkgs ! i)\<lparr>result := result (packages ?st ! i)\<rparr>"
    using inv i unfolding resultInv_def by blast
  then have "packages ?st ! i = (pkgs ! i)\<lparr>result := resultAfter flags i sch (result (pkgs ! i))\<rparr>"
    unfolding unit_outcome(2) [OF i] .
  then show "packages ?st ! i =
      map (\<lambda>i. (pkgs ! i)\<lparr>result := resultAfter flags i sch (result (pkgs ! i))\<rparr>) [0..<length pkgs] ! i"
    using i by simp
qed

lemma joined_of_schedule:
  "joined (releaseAll C mc flags pkgs sch) =
     (case firstRejection (trace (releaseAll C mc flags pkgs sch)) of
        Some e \<Rightarrow> Some (Inl e)
      | None \<Rightarrow> if \<forall>i < length pkgs. \<exists>r. settlementOf flags i sch = Some (Inr r)
                then Some (Inr ()) else None)"
proof -
  let ?st = "releaseAll C mc flags pkgs sch"
  have "list_all (\<lambda>t. t = Fulfilled) (tasks ?st) \<longleftrightarrow> (\<forall>i < length pkgs. tasks ?st ! i = Fulfilled)"
    by (simp add: list_all_length length_tasks_releaseAll)
  also have "\<dots> \<longleftrightarrow> (\<forall>i < length pkgs. \<exists>r. settlementOf flags i sch = Some (Inr r))"
    using unit_outcome(1) [of _ pkgs C mc flags sch] by (simp add: taskAfter_Fulfilled)
  finally have eq: "list_all (\<lambda>t. t = Fulfilled) (tasks ?st) \<longleftrightarrow>
      (\<forall>i < length pkgs. \<exists>r. settlementOf flags i sch = Some (Inr r))" .
  show ?thesis
    unfolding joined_releaseAll joinedOf_def eq ..
qed

lemma all_settled_resolves:
  assumes "\<forall>i < length pkgs. \<exists>r. settlementOf flags i sch = Some (Inr r)"
  shows "joined (releaseAll C mc flags pkgs sch) = Some (Inr ())"
proof -
  have "TaskRejected i e \<notin> set (trace (releaseAll C mc flags pkgs sch))" for i e
    unfolding rejected_events using assms by auto
  then have "firstRejection (trace (releaseAll C mc flags pkgs sch)) = None"
    by (simp add: firstRejection_None_iff)
  then show ?thesis unfolding joined_of_schedule using assms by simp
qed

lemma unsettled_pending:
  assumes "\<forall>i < length pkgs. \<forall>reason. settlementOf flags i sch \<noteq> Some (Inl reason)"
    and "\<exists>i < length pkgs. settlementOf flags i sch = None"
  shows "joined (releaseAll C mc flags pkgs sch) = None"
proof -
  have "TaskRejected i e \<notin> set (trace (releaseAll C mc flags pkgs sch))" for i e
    unfolding rejected_events using assms(1) by auto
  then have "firstRejection (trace (releaseAll C mc flags pkgs sch)) = None"
    by (simp add: firstRejection_None_iff)
  moreover have "\<not> (\<forall>i < length pkgs. \<exists>r. settlementOf flags i sch = Some (Inr r))"
    using assms(2) by auto
  ultimately show ?thesis unfolding joined_of_schedule by simp
qed

lemma some_failure_rejects:
  assumes "i < length pkgs" "settlementOf flags i sch = Some (Inl reason)"
  shows "\<exists>j reason'. j < length pkgs \<and> settlementOf flags j sch = Some (Inl reason') \<and>
     joined (releaseAll C mc flags pkgs sch) = Some (Inl (PipelineError reason')) \<and>
     firstRejection (trace (releaseAll C mc flags pkgs sch)) = Some (PipelineError reason')"
proof -
  let ?st = "releaseAll C mc flags pkgs sch"
  have "TaskRejected i (PipelineError reason) \<in> set (trace ?st)"
    unfolding rejected_events using assms by simp
  then have "firstRejection (trace ?st) \<noteq> None"
    unfolding firstRejection_None_iff by blast
  then obtain e where e: "firstRejection (trace ?st) = Some e" by auto
  then obtain j where "TaskRejected j e \<in> set (trace ?st)"
    using firstRejection_Some_mem by blast
  then have "j < length pkgs \<and> (\<exists>reason'. settlementOf flags j sch = Some (Inl reason') \<and> e = PipelineError reason')"
    unfolding rejected_events .
  then show ?thesis using e unfolding joined_of_schedule by auto
qed

lemma trace_fold_step:
  "\<exists>new. trace (fold (step C mc flags) sch st) = trace st @ new"
proof (induction sch arbitrary: st)
  case Nil
  then show ?case by simp
next
  case (Cons occ sch)
  obtain a where a: "trace (step C mc flags occ st) = trace st @ a" using trace_step by blast
  obtain b where b: "trace (fold (step C mc flags) sch (step C mc flags occ st)) = trace (step C mc flags occ st) @ b"
    using Cons by blast
  show ?case using a b by simp
qed

lemma first_failure_rejects:
  assumes i: "i < length pkgs"
    and t: "taskAfter flags i pre = AwaitingEngine"
    and n: "\<forall>j < length pkgs. \<forall>reason'. settlementOf flags j pre \<noteq> Some (Inl reason')"
  shows "joined (releaseAll C mc flags pkgs (pre @ Settles i (Inl reason) # post)) = Some (Inl (PipelineError reason))"
proof -
  let ?s1 = "releaseAll C mc flags pkgs pre"
  let ?s2 = "step C mc flags (Settles i (Inl reason)) ?s1"
  let ?s3 = "releaseAll C mc flags pkgs (pre @ Settles i (Inl reason) # post)"
  have "TaskRejected j e \<notin> set (trace ?s1)" for j e
    unfolding rejected_events using n by auto
  then have f1: "firstRejection (trace ?s1) = None"
    by (simp add: firstRejection_None_iff)
  have a: "tasks ?s1 ! i = AwaitingEngine" "i < length (tasks ?s1)"
    using unit_outcome(1) [OF i, of C mc flags pre] t i by (simp_all add: length_tasks_releaseAll)
  have t2: "trace ?s2 = trace ?s1 @ [TaskRejected i (PipelineError reason)]"
    using a by (simp add: step_def settle_def)
  have s3: "?s3 = fold (step C mc flags) post ?s2"
    by (simp add: releaseAll_def)
  obtain new where "trace ?s3 = trace ?s2 @ new"
    unfolding s3 using trace_fold_step by blast
  then have "firstRejection (trace ?s3) = Some (PipelineError reason)"
    using f1 by (simp add: t2 firstRejection_append)
  then show ?thesis unfolding joined_of_schedule by simp
qed

section \<open>The run of the orchestrator, read off the schedule\<close>

lemma orchestrator_not_task:
  assumes "list_all isOrchestratorEvent es"
  shows "SetResult i v \<notin> set es" "TaskRejected i e \<notin> set es"
  using assms by (auto simp: list_all_iff isOrchestratorEvent_def)

lemma events_finish:
  "SetResult i v \<in> set (events (finish earlier st)) \<longleftrightarrow>
     SetResult i v \<in> set earlier \<or> SetResult i v \<in> set (trace st)"
  "TaskRejected i e \<in> set (events (finish earlier st)) \<longleftrightarrow>
     TaskRejected i e \<in> set earlier \<or> TaskRejected i e \<in> set (trace st)"
  by (auto simp: finish_def Let_def split: option.splits sum.splits)

lemma outcome_finish:
  "joined st = Some (Inr u) \<Longrightarrow> outcome (finish earlier st) = Resolves (packages st)"
  "joined st = Some (Inl e) \<Longrightarrow> outcome (finish earlier st) = Rejects e"
  "joined st = None \<Longrightarrow> outcome (finish earlier st) = Pending"
  by (simp_all add: finish_def Let_def)

lemma run_of_schedule:
  assumes c: "checkParams C paths pm s = None"
    and l: "loadPackages C (contextOf C io s) (sourcesOf paths pm) = Inr loaded"
    and a: "\<not> (truthy (getOwn flags ''sequentialPrepare'') \<and> isCyclicProject (linkLocalDeps loaded))"
  shows "multiSemanticRelease C paths pm io s flags sch =
     finish (loadingEvents (sourcesOf paths pm) @ linkedEvents (linkLocalDeps loaded) @
             queuedEvents (linkLocalDeps loaded))
       (releaseAll C (contextOf C io s) flags (linkLocalDeps loaded) sch)"
proof -
  have "(if truthy (getOwn flags ''sequentialPrepare'') \<and> isCyclicProject (linkLocalDeps loaded)
         then x else y) = y" for x y :: run
    by (rule if_not_P [OF a])
  then show ?thesis
    unfolding multiSemanticRelease_def Let_def c l by simp
qed

lemma run_all_settled:
  assumes c: "checkParams C paths pm s = None"
    and l: "loadPackages C (contextOf C io s) (sourcesOf paths pm) = Inr loaded"
    and a: "\<not> (truthy (getOwn flags ''sequentialPrepare'') \<and> isCyclicProject (linkLocalDeps loaded))"
    and all: "\<forall>i < length loaded. \<exists>r. settlementOf flags i sch = Some (Inr r)"
  shows "outcome (multiSemanticRelease C paths pm io s flags sch) =
           Resolves (map (\<lambda>i. (linkLocalDeps loaded ! i)\<lparr>result := resultAfter flags i sch JUndefined\<rparr>)
                       [0..<length loaded])"
proof -
  let ?pkgs = "linkLocalDeps loaded"
  let ?st = "releaseAll C (contextOf C io s) flags ?pkgs sch"
  have "joined ?st = Some (Inr ())"
    using all by (intro all_settled_resolves) simp
  then have o: "outcome (multiSemanticRelease C paths pm io s flags sch) = Resolves (packages ?st)"
    unfolding run_of_schedule [OF c l a] by (rule outcome_finish)
  have e: "(?pkgs ! i)\<lparr>result := resultAfter flags i sch (result (?pkgs ! i))\<rparr>
      = (?pkgs ! i)\<lparr>result := resultAfter flags i sch JUndefined\<rparr>" if il: "i < length loaded" for i
  proof -
    obtain r where "settlementOf flags i sch = Some (Inr r)" using all il by blast
    then show ?thesis by (simp add: resultAfter_def)
  qed
  have "map (\<lambda>i. (?pkgs ! i)\<lparr>result := resultAfter flags i sch (result (?pkgs ! i))\<rparr>) [0..<length loaded]
      = map (\<lambda>i. (?pkgs ! i)\<lparr>result := resultAfter flags i sch JUndefined\<rparr>) [0..<length loaded]"
    by (rule map_cong [OF refl]) (simp add: e)
  then have "packages ?st =
      map (\<lambda>i. (?pkgs ! i)\<lparr>result := resultAfter flags i sch JUndefined\<rparr>) [0..<length loaded]"
    unfolding packages_of_schedule by simp
  then show ?thesis using o by simp
qed

lemma run_first_failure:
  assumes c: "checkParams C paths pm s = None"
    and l: "loadPackages C (contextOf C io s) (sourcesOf paths pm) = Inr loaded"
    and a: "\<not> (truthy (getOwn flags ''sequentialPrepare'') \<and> isCyclicProject (linkLocalDeps loaded))"
    and i: "i < length loaded" and t: "taskAfter flags i pre = AwaitingEngine"
    and n: "\<forall>j < length loaded. \<forall>reason'. settlementOf flags j pre \<noteq> Some (Inl reason')"
  shows "outcome (multiSemanticRelease C paths pm io s flags (pre @ Settles i (Inl reason) # post))
     = Rejects (PipelineError reason)"
proof -
  have "joined (releaseAll C (contextOf C io s) flags (linkLocalDeps loaded) (pre @ Settles i (Inl reason) # post))
      = Some (Inl (PipelineError reason))"
    using i t n by (intro first_failure_rejects) simp_all
  then show ?thesis
    unfolding run_of_schedule [OF c l a] by (rule outcome_finish)
qed

lemma run_some_failure:
  assumes c: "checkParams C paths pm s = None"
    and l: "loadPackages C (contextOf C io s) (sourcesOf paths pm) = Inr loaded"
    and a: "\<not> (truthy (getOwn flags ''sequentialPrepare'') \<and> isCyclicProject (linkLocalDeps loaded))"
    and i: "i < length loaded" "settlementOf flags i sch = Some (Inl reason)"
  shows "\<exists>j < length loaded. \<exists>reason'. settlementOf flags j sch = Some (Inl reason') \<and>
            outcome (multiSemanticRelease C paths pm io s flags sch) = Rejects (PipelineError reason')"
proof -
  let ?pkgs = "linkLocalDeps loaded"
  have i': "i < length ?pkgs" using i by simp
  from some_failure_rejects [OF i' i(2), of C "contextOf C io s"]
  obtain j reason' where j: "j < length ?pkgs" "settlementOf flags j sch = Some (Inl reason')"
    "joined (releaseAll C (contextOf C io s) flags ?pkgs sch) = Some (Inl (PipelineError reason'))" by blast
  have "outcome (multiSemanticRelease C paths pm io s flags sch) = Rejects (PipelineError reason')"
    unfolding run_of_schedule [OF c l a] using j(3) by (rule outcome_finish)
  then show ?thesis using j(1,2) by auto
qed

lemma run_unsettled:
  assumes c: "checkParams C paths pm s = None"
    and l: "loadPackages C (contextOf C io s) (sourcesOf paths pm) = Inr loaded"
    and a: "\<not> (truthy (getOwn flags ''sequentialPrepare'') \<and> isCyclicProject (linkLocalDeps loaded))"
    and n: "\<forall>i < length loaded. \<forall>reason. settlementOf flags i sch \<noteq> Some (Inl reason)"
    and u: "\<exists>i < length loaded. settlementOf flags i sch = None"
  shows "outcome (multiSemanticRelease C paths pm io s flags sch) = Pending"
proof -
  have "joined (releaseAll C (contextOf C io s) flags (linkLocalDeps loaded) sch) = None"
    using n u by (intro unsettled_pending) simp_all
  then show ?thesis
    unfolding run_of_schedule [OF c l a] by (rule outcome_finish)
qed

lemma run_task_events:
  assumes c: "checkParams C paths pm s = None"
    and l: "loadPackages C (contextOf C io s) (sourcesOf paths pm) = Inr loaded"
    and a: "\<not> (truthy (getOwn flags ''sequentialPrepare'') \<and> isCyclicProject (linkLocalDeps loaded))"
    and i: "i < length loaded"
  shows "SetResult i v \<in> set (events (multiSemanticRelease C paths pm io s flags sch)) \<longleftrightarrow>
           (\<exists>r. settlementOf flags i sch = Some (Inr r) \<and> v = resultValue r)"
    and "TaskRejected i e \<in> set (events (multiSemanticRelease C paths pm io s flags sch)) \<longleftrightarrow>
           (\<exists>reason. settlementOf flags i sch = Some (Inl reason) \<and> e = PipelineError reason)"
proof -
  let ?pkgs = "linkLocalDeps loaded"
  let ?pre = "loadingEvents (sourcesOf paths pm) @ linkedEvents ?pkgs @ queuedEvents ?pkgs"
  have pre: "list_all isOrchestratorEvent ?pre"
    using orchestrator_events(1) [of "sourcesOf paths pm"]
      orchestrator_events(2) [of ?pkgs] orchestrator_events(3) [of ?pkgs] by simp
  have i': "i < length ?pkgs" using i by simp
  have 1: "SetResult i v \<notin> set ?pre" by (rule orchestrator_not_task(1) [OF pre])
  have 2: "TaskRejected i e \<notin> set ?pre" by (rule orchestrator_not_task(2) [OF pre])
  show "SetResult i v \<in> set (events (multiSemanticRelease C paths pm io s flags sch)) \<longleftrightarrow>
           (\<exists>r. settlementOf flags i sch = Some (Inr r) \<and> v = resultValue r)"
    unfolding run_of_schedule [OF c l a] events_finish result_events [OF i']
    using 1 by blast
  show "TaskRejected i e \<in> set (events (multiSemanticRelease C paths pm io s flags sch)) \<longleftrightarrow>
           (\<exists>reason. settlementOf flags i sch = Some (Inl reason) \<and> e = PipelineError reason)"
    unfolding run_of_schedule [OF c l a] events_finish rejected_events
    using 2 i' by blast
qed

section \<open>A settlement of the release engine\<close>

lemma settle_success:
  assumes "j < length (tasks st)" "tasks st ! j = AwaitingEngine"
  shows "tasks (step C mc flags (Settles j (Inr r)) st) ! j = Fulfilled"
    and "packages (step C mc flags (Settles j (Inr r)) st) =
           (packages st)[j := (packages st ! j)\<lparr>result := resultValue r\<rparr>]"
    and "trace (step C mc flags (Settles j (Inr r)) st) = trace st @ [SetResult j (resultValue r)]"
  using assms by (simp_all add: step_def settle_def)

lemma settle_failure:
  assumes "j < length (tasks st)" "tasks st ! j = AwaitingEngine"
  shows "tasks (step C mc flags (Settles j (Inl reason)) st) ! j = Rejected (PipelineError reason)"
    and "packages (step C mc flags (Settles j (Inl reason)) st) = packages st"
    and "trace (step C mc flags (Settles j (Inl reason)) st) = trace st @ [TaskRejected j (PipelineError reason)]"
  using assms by (simp_all add: step_def settle_def)

section \<open>The properties of the specification\<close>

subsection \<open>A failing pipeline and the outcome of the run\<close>

text \<open>
  When the pipeline of the first example package fails, the run rejects with that error; the
  second task still settles, and no summary is logged.
\<close>

theorem failing_pipeline_rejects_run:
  "outcome (multiSemanticRelease exampleCollaborators JUndefined exampleManifests [] exampleSettings []
      failingSchedule) = Rejects (PipelineError ''boom'') \<and>
   last (events (multiSemanticRelease exampleCollaborators JUndefined exampleManifests [] exampleSettings []
      failingSchedule)) = SetResult 1 (JBool False)"
  by code_simp

text \<open>
  C1, as the code has it. The claim reads: when the release pipeline of some package fails the run
  is not aborted, the orchestrator waits for every task and returns all packages with their
  \<^verbatim>\<open>result\<close> set, logging how many of N were released. The source awaits
  \<^verbatim>\<open>Promise.all\<close> over the tasks with no handler, so the run rejects with the first rejection.
  What holds is: if the run resolves then no task was rejected, the packages returned are as
  many as the sources, each has a result that the release engine returned, and the last event is
  the summary line counting the packages with a truthy result; and if some task was rejected,
  the run rejects with the first such error and no summary line is logged. For a run that
  passes the parameter check, loads its packages and is not stopped by the cycle check, the
  outcome is decided by the schedule: if the release of every package settles with success the
  run resolves with the packages, each with the result of its release; the first failure in a
  schedule, at a moment when no release has failed yet, rejects the run with its reason,
  whatever follows; if the release of some package fails the run rejects with the reason of such
  a package; if none fails and some release has not settled the run is pending. Whatever the
  other tasks do, the result of a package is written in the events exactly when its own release
  settles with success, with the value of that release, and its task is rejected exactly when
  its own release fails: the tasks are not cancelled by the failure of another.
\<close>

theorem run_resolves_or_rejects:
  "(\<forall>ps. outcome (multiSemanticRelease C paths pm io s flags sch) = Resolves ps \<longrightarrow>
      firstRejection (events (multiSemanticRelease C paths pm io s flags sch)) = None \<and>
      length ps = length (sourcesOf paths pm) \<and>
      (\<forall>p \<in> set ps. \<exists>x. result p = resultValue x) \<and>
      last (events (multiSemanticRelease C paths pm io s flags sch)) =
        Log Complete (releasedMessage (length (filter (\<lambda>p. truthy (result p)) ps)) (length ps))) \<and>
   (\<forall>e. firstRejection (events (multiSemanticRelease C paths pm io s flags sch)) = Some e \<longrightarrow>
      outcome (multiSemanticRelease C paths pm io s flags sch) = Rejects e \<and>
      (\<forall>k n. Log Complete (releasedMessage k n)
         \<notin> set (events (multiSemanticRelease C paths pm io s flags sch)))) \<and>
   (checkParams C paths pm s = None \<and>
    loadPackages C (contextOf C io s) (sourcesOf paths pm) = Inr loaded \<and>
    \<not> (truthy (getOwn flags ''sequentialPrepare'') \<and> isCyclicProject (linkLocalDeps loaded)) \<longrightarrow>
      ((\<forall>i < length loaded. \<exists>r. settlementOf flags i sch = Some (Inr r)) \<longrightarrow>
         outcome (multiSemanticRelease C paths pm io s flags sch) =
           Resolves (map (\<lambda>i. (linkLocalDeps loaded ! i)\<lparr>result := resultAfter flags i sch JUndefined\<rparr>)
                       [0..<length loaded])) \<and>
      (\<forall>pre i reason post.
         i < length loaded \<and> taskAfter flags i pre = AwaitingEngine \<and>
         (\<forall>j < length loaded. \<forall>reason'. settlementOf flags j pre \<noteq> Some (Inl reason')) \<longrightarrow>
           outcome (multiSemanticRelease C paths pm io s flags (pre @ Settles i (Inl reason) # post))
             = Rejects (PipelineError reason)) \<and>
      ((\<exists>i < length loaded. \<exists>reason. settlementOf flags i sch = Some (Inl reason)) \<longrightarrow>
         (\<exists>j < length loaded. \<exists>reason'. settlementOf flags j sch = Some (Inl reason') \<and>
            outcome (multiSemanticRelease C paths pm io s flags sch) = Rejects (PipelineError reason'))) \<and>
      ((\<forall>i < length loaded. \<forall>reason. settlementOf flags i sch \<noteq> Some (Inl reason)) \<and>
       (\<exists>i < length loaded. settlementOf flags i sch = None) \<longrightarrow>
         outcome (multiSemanticRelease C paths pm io s flags sch) = Pending) \<and>
      (\<forall>i < length loaded. \<forall>v.
         SetResult i v \<in> set (events (multiSemanticRelease C paths pm io s flags sch)) \<longleftrightarrow>
           (\<exists>r. settlementOf flags i sch = Some (Inr r) \<and> v = resultValue r)) \<and>
      (\<forall>i < length loaded. \<forall>e.
         TaskRejected i e \<in> set (events (multiSemanticRelease C paths pm io s flags sch)) \<longleftrightarrow>
           (\<exists>reason. settlementOf flags i sch = Some (Inl reason) \<and> e = PipelineError reason)))"
proof (rule conjI [OF conjunct1 [OF run_trace_outcome]
      conjI [OF conjunct2 [OF run_trace_outcome]]], rule impI)
  assume h: "checkParams C paths pm s = None \<and>
    loadPackages C (contextOf C io s) (sourcesOf paths pm) = Inr loaded \<and>
    \<not> (truthy (getOwn flags ''sequentialPrepare'') \<and> isCyclicProject (linkLocalDeps loaded))"
  have c: "checkParams C paths pm s = None" using h by (rule conjunct1)
  have l: "loadPackages C (contextOf C io s) (sourcesOf paths pm) = Inr loaded"
    using h by (rule conjunct1 [OF conjunct2])
  have a: "\<not> (truthy (getOwn flags ''sequentialPrepare'') \<and> isCyclicProject (linkLocalDeps loaded))"
    using h by (rule conjunct2 [OF conjunct2])
  show "((\<forall>i < length loaded. \<exists>r. settlementOf flags i sch = Some (Inr r)) \<longrightarrow>
         outcome (multiSemanticRelease C paths pm io s flags sch) =
           Resolves (map (\<lambda>i. (linkLocalDeps loaded ! i)\<lparr>result := resultAfter flags i sch JUndefined\<rparr>)
                       [0..<length loaded])) \<and>
      (\<forall>pre i reason post.
         i < length loaded \<and> taskAfter flags i pre = AwaitingEngine \<and>
         (\<forall>j < length loaded. \<forall>reason'. settlementOf flags j pre \<noteq> Some (Inl reason')) \<longrightarrow>
           outcome (multiSemanticRelease C paths pm io s flags (pre @ Settles i (Inl reason) # post))
             = Rejects (PipelineError reason)) \<and>
      ((\<exists>i < length loaded. \<exists>reason. settlementOf flags i sch = Some (Inl reason)) \<longrightarrow>
         (\<exists>j < length loaded. \<exists>reason'. settlementOf flags j sch = Some (Inl reason') \<and>
            outcome (multiSemanticRelease C paths pm io s flags sch) = Rejects (PipelineError reason'))) \<and>
      ((\<forall>i < length loaded. \<forall>reason. settlementOf flags i sch \<noteq> Some (Inl reason)) \<and>
       (\<exists>i < length loaded. settlementOf flags i sch = None) \<longrightarrow>
         outcome (multiSemanticRelease C paths pm io s flags sch) = Pending) \<and>
      (\<forall>i < length loaded. \<forall>v.
         SetResult i v \<in> set (events (multiSemanticRelease C paths pm io s flags sch)) \<longleftrightarrow>
           (\<exists>r. settlementOf flags i sch = Some (Inr r) \<and> v = resultValue r)) \<and>
      (\<forall>i < length loaded. \<forall>e.
         TaskRejected i e \<in> set (events (multiSemanticRelease C paths pm io s flags sch)) \<longleftrightarrow>
           (\<exists>reason. settlementOf flags i sch = Some (Inl reason) \<and> e = PipelineError reason))"
  proof (intro conjI)
    show "(\<forall>i < length loaded. \<exists>r. settlementOf flags i sch = Some (Inr r)) \<longrightarrow>
         outcome (multiSemanticRelease C paths pm io s flags sch) =
           Resolves (map (\<lambda>i. (linkLocalDeps loaded ! i)\<lparr>result := resultAfter flags i sch JUndefined\<rparr>)
                       [0..<length loaded])"
      by (rule impI) (rule run_all_settled [OF c l a])
    show "\<forall>pre i reason post.
         i < length loaded \<and> taskAfter flags i pre = AwaitingEngine \<and>
         (\<forall>j < length loaded. \<forall>reason'. settlementOf flags j pre \<noteq> Some (Inl reason')) \<longrightarrow>
           outcome (multiSemanticRelease C paths pm io s flags (pre @ Settles i (Inl reason) # post))
             = Rejects (PipelineError reason)"
    proof (intro allI impI)
      fix pre i reason post
      assume f: "i < length loaded \<and> taskAfter flags i pre = AwaitingEngine \<and>
         (\<forall>j < length loaded. \<forall>reason'. settlementOf flags j pre \<noteq> Some (Inl reason'))"
      show "outcome (multiSemanticRelease C paths pm io s flags (pre @ Settles i (Inl reason) # post))
             = Rejects (PipelineError reason)"
        by (rule run_first_failure [OF c l a conjunct1 [OF f] conjunct1 [OF conjunct2 [OF f]]
              conjunct2 [OF conjunct2 [OF f]]])
    qed
    show "(\<exists>i < length loaded. \<exists>reason. settlementOf flags i sch = Some (Inl reason)) \<longrightarrow>
         (\<exists>j < length loaded. \<exists>reason'. settlementOf flags j sch = Some (Inl reason') \<and>
            outcome (multiSemanticRelease C paths pm io s flags sch) = Rejects (PipelineError reason'))"
    proof
      assume "\<exists>i < length loaded. \<exists>reason. settlementOf flags i sch = Some (Inl reason)"
      then obtain i reason where i: "i < length loaded" "settlementOf flags i sch = Some (Inl reason)"
        by blast
      show "\<exists>j < length loaded. \<exists>reason'. settlementOf flags j sch = Some (Inl reason') \<and>
            outcome (multiSemanticRelease C paths pm io s flags sch) = Rejects (PipelineError reason')"
        by (rule run_some_failure [OF c l a i])
    qed
    show "(\<forall>i < length loaded. \<forall>reason. settlementOf flags i sch \<noteq> Some (Inl reason)) \<and>
       (\<exists>i < length loaded. settlementOf flags i sch = None) \<longrightarrow>
         outcome (multiSemanticRelease C paths pm io s flags sch) = Pending"
    proof
      assume p: "(\<forall>i < length loaded. \<forall>reason. settlementOf flags i sch \<noteq> Some (Inl reason)) \<and>
       (\<exists>i < length loaded. settlementOf flags i sch = None)"
      show "outcome (multiSemanticRelease C paths pm io s flags sch) = Pending"
        by (rule run_unsettled [OF c l a conjunct1 [OF p] conjunct2 [OF p]])
    qed
    show "\<forall>i < length loaded. \<forall>v.
         SetResult i v \<in> set (events (multiSemanticRelease C paths pm io s flags sch)) \<longleftrightarrow>
           (\<exists>r. settlementOf flags i sch = Some (Inr r) \<and> v = resultValue r)"
      by (intro allI impI) (rule run_task_events(1) [OF c l a])
    show "\<forall>i < length loaded. \<forall>e.
         TaskRejected i e \<in> set (events (multiSemanticRelease C paths pm io s flags sch)) \<longleftrightarrow>
           (\<exists>reason. settlementOf flags i sch = Some (Inl reason) \<and> e = PipelineError reason)"
      by (intro allI impI) (rule run_task_events(2) [OF c l a])
  qed
qed

text \<open>
  The example run when both pipelines settle with success, when the first one fails and the
  second still settles, and when the first one never settles.
\<close>

theorem run_resolves_or_rejects_witness:
  "outcome (multiSemanticRelease exampleCollaborators JUndefined exampleManifests [] exampleSettings []
      passingSchedule) =
     Resolves [(examplePackages ! 0)\<lparr>result := JObj []\<rparr>, (examplePackages ! 1)\<lparr>result := JBool False\<rparr>] \<and>
   last (events (multiSemanticRelease exampleCollaborators JUndefined exampleManifests [] exampleSettings []
      passingSchedule)) = Log Complete ''Released 1 of 2 packages, semantically!'' \<and>
   outcome (multiSemanticRelease exampleCollaborators JUndefined exampleManifests [] exampleSettings []
      failingSchedule) = Rejects (PipelineError ''boom'') \<and>
   SetResult 1 (JBool False) \<in> set (events (multiSemanticRelease exampleCollaborators JUndefined
      exampleManifests [] exampleSettings [] failingSchedule)) \<and>
   outcome (multiSemanticRelease exampleCollaborators JUndefined exampleManifests [] exampleSettings []
      [Settles 1 (Inr Skipped)]) = Pending"
proof -
  let ?run = "multiSemanticRelease exampleCollaborators JUndefined exampleManifests [] exampleSettings []"
  let ?ps = "[(examplePackages ! 0)\<lparr>result := JObj []\<rparr>, (examplePackages ! 1)\<lparr>result := JBool False\<rparr>]"
  have nf: "\<not> truthy (getOwn [] ''sequentialPrepare'')" by code_simp
  have h: "checkParams exampleCollaborators JUndefined exampleManifests exampleSettings = None \<and>
    loadPackages exampleCollaborators (contextOf exampleCollaborators [] exampleSettings)
      (sourcesOf JUndefined exampleManifests) = Inr [packageA, packageB] \<and>
    \<not> (truthy (getOwn [] ''sequentialPrepare'') \<and> isCyclicProject (linkLocalDeps [packageA, packageB]))"
    using example_params example_loaded nf by simp
  have n: "length [packageA, packageB] = 2" by simp
  have two: "(\<forall>i < 2. P i) \<longleftrightarrow> P 0 \<and> P (Suc 0)" for P :: "nat \<Rightarrow> bool"
    by (auto simp: less_2_cases_iff)
  have p0: "settlementOf [] 0 passingSchedule = Some (Inr (Released []))" by code_simp
  have p1: "settlementOf [] (Suc 0) passingSchedule = Some (Inr Skipped)" by code_simp
  have f1: "settlementOf [] (Suc 0) failingSchedule = Some (Inr Skipped)" by code_simp
  have u0: "settlementOf [] 0 [Settles 1 (Inr Skipped)] = None" by code_simp
  have u1: "settlementOf [] (Suc 0) [Settles 1 (Inr Skipped)] = Some (Inr Skipped)" by code_simp
  have e: "settlementOf [] j [] = None" for j
    by (simp add: settlementOf_def sinceStart_def)
  have t: "taskAfter [] 0 [] = AwaitingEngine" by code_simp
  have m: "map (\<lambda>i. (linkLocalDeps [packageA, packageB] ! i)\<lparr>result := resultAfter [] i passingSchedule JUndefined\<rparr>)
      [0..<length [packageA, packageB]] = ?ps" by code_simp
  have k: "releasedMessage (length (filter (\<lambda>p. truthy (result p)) ?ps)) (length ?ps)
     = ''Released 1 of 2 packages, semantically!''" by code_simp
  have fs: "failingSchedule = [] @ Settles 0 (Inl ''boom'') # [Settles 1 (Inr Skipped)]"
    by (simp add: failingSchedule_def)
  note ok = run_resolves_or_rejects [of exampleCollaborators JUndefined exampleManifests "[]"
      exampleSettings "[]" passingSchedule "[packageA, packageB]"]
  note ko = run_resolves_or_rejects [of exampleCollaborators JUndefined exampleManifests "[]"
      exampleSettings "[]" failingSchedule "[packageA, packageB]"]
  note un = run_resolves_or_rejects [of exampleCollaborators JUndefined exampleManifests "[]"
      exampleSettings "[]" "[Settles 1 (Inr Skipped)]" "[packageA, packageB]"]
  note ok' = mp [OF conjunct2 [OF conjunct2 [OF ok]] h]
  note ko' = mp [OF conjunct2 [OF conjunct2 [OF ko]] h]
  note un' = mp [OF conjunct2 [OF conjunct2 [OF un]] h]
  have all: "\<forall>i < length [packageA, packageB]. \<exists>r. settlementOf [] i passingSchedule = Some (Inr r)"
    unfolding n two using p0 p1 by simp
  have 1: "outcome (?run passingSchedule) = Resolves ?ps"
    using mp [OF conjunct1 [OF ok'] all] unfolding m .
  have 2: "last (events (?run passingSchedule)) = Log Complete ''Released 1 of 2 packages, semantically!''"
    using conjunct1 [OF ok] 1 k by simp
  have none: "\<forall>j < length [packageA, packageB]. \<forall>reason'. settlementOf [] j [] \<noteq> Some (Inl reason')"
    by (simp add: e)
  have "outcome (?run ([] @ Settles 0 (Inl ''boom'') # [Settles 1 (Inr Skipped)])) = Rejects (PipelineError ''boom'')"
    using conjunct1 [OF conjunct2 [OF ko']] t none by (simp del: append_Nil)
  then have 3: "outcome (?run failingSchedule) = Rejects (PipelineError ''boom'')"
    unfolding fs .
  have 4: "SetResult 1 (JBool False) \<in> set (events (?run failingSchedule))"
    using conjunct1 [OF conjunct2 [OF conjunct2 [OF conjunct2 [OF conjunct2 [OF ko']]]]] f1 by simp
  have "(\<forall>i < length [packageA, packageB]. \<forall>reason. settlementOf [] i [Settles 1 (Inr Skipped)] \<noteq> Some (Inl reason)) \<and>
       (\<exists>i < length [packageA, packageB]. settlementOf [] i [Settles 1 (Inr Skipped)] = None)"
  proof
    show "\<forall>i < length [packageA, packageB]. \<forall>reason. settlementOf [] i [Settles 1 (Inr Skipped)] \<noteq> Some (Inl reason)"
      unfolding n two using u0 u1 by simp
    have "(0::nat) < length [packageA, packageB]" by simp
    then show "\<exists>i < length [packageA, packageB]. settlementOf [] i [Settles 1 (Inr Skipped)] = None"
      using u0 by blast
  qed
  then have 5: "outcome (?run [Settles 1 (Inr Skipped)]) = Pending"
    using conjunct1 [OF conjunct2 [OF conjunct2 [OF conjunct2 [OF un']]]] by blast
  show ?thesis using 1 2 3 4 5 by simp
qed

subsection \<open>Cycles under sequentialPrepare\<close>

text \<open>
  C2: when the parameters pass the check and the packages load, a truthy \<^verbatim>\<open>sequentialPrepare\<close>
  flag on a package set whose local-dependency graph has a directed cycle makes the run reject
  with the cyclic-dependency error; the failure line is the last event and every event before
  it is a log line or a package load, so that no synchronizer was made and no package was
  released. When the flag is not truthy the run never rejects with that error, the failure
  line is never logged, and the run goes on to make the synchronizer.
\<close>

theorem cyclic_rejected_before_release:
  assumes "checkParams C paths pm s = None"
    and "loadPackages C (contextOf C io s) (sourcesOf paths pm) = Inr loaded"
  shows "(truthy (getOwn flags ''sequentialPrepare'') \<and> \<not> acyclic (depEdges (linkLocalDeps loaded)) \<longrightarrow>
           outcome (multiSemanticRelease C paths pm io s flags sch) = Rejects cyclicError \<and>
           last (events (multiSemanticRelease C paths pm io s flags sch)) = Log Failure cyclicMessage \<and>
           list_all isLoadEvent (events (multiSemanticRelease C paths pm io s flags sch))) \<and>
         (\<not> truthy (getOwn flags ''sequentialPrepare'') \<longrightarrow>
           outcome (multiSemanticRelease C paths pm io s flags sch) \<noteq> Rejects cyclicError \<and>
           Log Failure cyclicMessage \<notin> set (events (multiSemanticRelease C paths pm io s flags sch)) \<and>
           GetSynchronizer \<in> set (events (multiSemanticRelease C paths pm io s flags sch)))"
proof -
  have load: "list_all isLoadEvent (loadingEvents (sourcesOf paths pm) @
      linkedEvents (linkLocalDeps loaded) @ [Log Failure cyclicMessage])"
    by (auto simp: loadingEvents_def linkedEvents_def list_all_iff)
  have "truthy (getOwn flags ''sequentialPrepare'') \<and> \<not> acyclic (depEdges (linkLocalDeps loaded)) \<longrightarrow>
      list_all isLoadEvent (events (multiSemanticRelease C paths pm io s flags sch))"
    using cyclic_rejection [OF assms, of flags sch] load
    by (simp add: isCyclicProject_iff)
  then show ?thesis
    using cyclic_rejection [OF assms, of flags sch]
    by (simp add: isCyclicProject_iff)
qed

text \<open>
  The two example packages depend on each other: with the flag the run rejects, without it the
  synchronizer is made.
\<close>

theorem cyclic_rejected_witness:
  "checkParams exampleCollaborators JUndefined exampleManifests exampleSettings = None \<and>
   loadPackages exampleCollaborators (contextOf exampleCollaborators [] exampleSettings)
     (sourcesOf JUndefined exampleManifests) = Inr [packageA, packageB] \<and>
   truthy (getOwn [(''sequentialPrepare'', JBool True)] ''sequentialPrepare'') \<and>
   \<not> acyclic (depEdges (linkLocalDeps [packageA, packageB])) \<and>
   outcome (multiSemanticRelease exampleCollaborators JUndefined exampleManifests [] exampleSettings
      [(''sequentialPrepare'', JBool True)] []) = Rejects cyclicError \<and>
   list_all isLoadEvent (events (multiSemanticRelease exampleCollaborators JUndefined exampleManifests []
      exampleSettings [(''sequentialPrepare'', JBool True)] [])) \<and>
   \<not> truthy (getOwn [] ''sequentialPrepare'') \<and>
   GetSynchronizer \<in> set (events (multiSemanticRelease exampleCollaborators JUndefined exampleManifests []
      exampleSettings [] []))"
proof -
  have t: "truthy (getOwn [(''sequentialPrepare'', JBool True)] ''sequentialPrepare'')" by code_simp
  have f: "\<not> truthy (getOwn [] ''sequentialPrepare'')" by code_simp
  have c: "\<not> acyclic (depEdges (linkLocalDeps [packageA, packageB]))"
    using example_cyclic by (simp add: isCyclicProject_iff)
  show ?thesis
    using cyclic_rejected_before_release [OF example_params example_loaded,
        of "[(''sequentialPrepare'', JBool True)]" "[]"]
      cyclic_rejected_before_release [OF example_params example_loaded, of "[]" "[]"]
      example_params example_loaded t f c
    by simp
qed

subsection \<open>Local dependencies\<close>

text \<open>
  Of two loaded packages named \<open>dup\<close> only the first becomes a local dependency of the package
  that depends on \<open>dup\<close>.
\<close>

theorem duplicate_name_not_linked:
  "loadPackages exampleCollaborators exampleContext [exampleD1, exampleD2, exampleC] = Inr duplicatePackages \<and>
   deps (duplicatePackages ! 2) = [''dup''] \<and>
   name (duplicatePackages ! 0) = ''dup'' \<and> name (duplicatePackages ! 1) = ''dup'' \<and>
   duplicatePackages ! 0 \<noteq> duplicatePackages ! 1 \<and>
   localDeps (linkLocalDeps duplicatePackages ! 2) = [0] \<and>
   1 \<notin> set (localDeps (linkLocalDeps duplicatePackages ! 2))"
  by code_simp

text \<open>
  C3, as the code has it. The claim reads: after linking, the local dependencies of a package are
  exactly the loaded package records whose name equals one of its declared dependency names.
  \<^verbatim>\<open>packages.find\<close> returns the first record of a name only, so of several loaded packages of
  one name the later ones are never linked. What holds is: every local dependency of a package
  is a loaded package whose name is among the declared dependency names of that package; a
  declared name has a local dependency of that name exactly when some loaded package has it, so
  that external names yield nothing and raise nothing; no local dependency is listed twice;
  when the loaded names are distinct the local dependencies are exactly the loaded packages
  whose name is declared; linking changes no other field of the package; and in general the
  local dependencies are exactly the loaded packages whose name is declared and that are the
  first loaded package of their name.
\<close>

theorem localDeps_exact:
  assumes i: "i < length pkgs"
  shows "(\<forall>j \<in> set (localDeps (linkLocalDeps pkgs ! i)).
            j < length pkgs \<and> name (pkgs ! j) \<in> set (deps (pkgs ! i))) \<and>
         (\<forall>d \<in> set (deps (pkgs ! i)). 
            (d \<in> name ` set pkgs) =
            (\<exists>j \<in> set (localDeps (linkLocalDeps pkgs ! i)). name (pkgs ! j) = d)) \<and>
         distinct (localDeps (linkLocalDeps pkgs ! i)) \<and>
         (distinct (map name pkgs) \<longrightarrow>
            set (localDeps (linkLocalDeps pkgs ! i)) =
              {j. j < length pkgs \<and> name (pkgs ! j) \<in> set (deps (pkgs ! i))}) \<and>
         linkLocalDeps pkgs ! i =
            (pkgs ! i)\<lparr>localDeps := localDeps (linkLocalDeps pkgs ! i)\<rparr> \<and>
         set (localDeps (linkLocalDeps pkgs ! i)) =
            {j. j < length pkgs \<and> name (pkgs ! j) \<in> set (deps (pkgs ! i)) \<and>
                (\<forall>k < j. name (pkgs ! k) \<noteq> name (pkgs ! j))}"
proof -
  note old = localDeps_general [OF i]
  have "localDeps (linkLocalDeps pkgs ! i) = localDepsOf pkgs (pkgs ! i)"
    using i by (simp add: nth_linkLocalDeps)
  then have S: "set (localDeps (linkLocalDeps pkgs ! i)) =
            {j. j < length pkgs \<and> name (pkgs ! j) \<in> set (deps (pkgs ! i)) \<and>
                (\<forall>k < j. name (pkgs ! k) \<noteq> name (pkgs ! j))}"
    by (simp add: set_localDepsOf)
  show ?thesis
    by (rule conjI [OF conjunct1 [OF old] conjI [OF conjunct1 [OF conjunct2 [OF old]]
          conjI [OF conjunct1 [OF conjunct2 [OF conjunct2 [OF old]]]
            conjI [OF conjunct1 [OF conjunct2 [OF conjunct2 [OF conjunct2 [OF old]]]]
              conjI [OF conjunct2 [OF conjunct2 [OF conjunct2 [OF conjunct2 [OF old]]]] S]]]]])
qed

text \<open>
  The local dependencies of the first example package: the second package, and not the external
  \<^verbatim>\<open>lodash\<close>; and those of the package that depends on a name two packages have.
\<close>

theorem localDeps_exact_witness:
  "0 < length [packageA, packageB] \<and> distinct (map name [packageA, packageB]) \<and>
   localDeps (linkLocalDeps [packageA, packageB] ! 0) = [1] \<and>
   set (localDeps (linkLocalDeps [packageA, packageB] ! 0)) =
     {j. j < length [packageA, packageB] \<and>
         name ([packageA, packageB] ! j) \<in> set (deps ([packageA, packageB] ! 0))} \<and>
   deps packageA = [''pkg-b'', ''lodash''] \<and> ''lodash'' \<notin> name ` set [packageA, packageB] \<and>
   2 < length duplicatePackages \<and>
   set (localDeps (linkLocalDeps duplicatePackages ! 2)) =
     {j. j < length duplicatePackages \<and> name (duplicatePackages ! j) \<in> set (deps (duplicatePackages ! 2)) \<and>
         (\<forall>k < j. name (duplicatePackages ! k) \<noteq> name (duplicatePackages ! j))}"
proof -
  have 1: "(0::nat) < length [packageA, packageB]" by simp
  have 2: "distinct (map name [packageA, packageB])" by code_simp
  have 3: "localDeps (linkLocalDeps [packageA, packageB] ! 0) = [1]" by code_simp
  have 4: "deps packageA = [''pkg-b'', ''lodash'']" by code_simp
  have 5: "''lodash'' \<notin> name ` set [packageA, packageB]" by code_simp
  have 6: "2 < length duplicatePackages" by code_simp
  note a = localDeps_exact [OF 1]
  note b = localDeps_exact [OF 6]
  have 7: "set (localDeps (linkLocalDeps [packageA, packageB] ! 0)) =
     {j. j < length [packageA, packageB] \<and>
         name ([packageA, packageB] ! j) \<in> set (deps ([packageA, packageB] ! 0))}"
    using mp [OF conjunct1 [OF conjunct2 [OF conjunct2 [OF conjunct2 [OF a]]]] 2] .
  have 8: "set (localDeps (linkLocalDeps duplicatePackages ! 2)) =
     {j. j < length duplicatePackages \<and> name (duplicatePackages ! j) \<in> set (deps (duplicatePackages ! 2)) \<and>
         (\<forall>k < j. name (duplicatePackages ! k) \<noteq> name (duplicatePackages ! j))}"
    using conjunct2 [OF conjunct2 [OF conjunct2 [OF conjunct2 [OF conjunct2 [OF b]]]]] .
  show ?thesis
    by (rule conjI [OF 1 conjI [OF 2 conjI [OF 3 conjI [OF 7 conjI [OF 4 conjI [OF 5 conjI [OF 6 8]]]]]]])
qed

subsection \<open>Precedence of the options\<close>

text \<open>
  A flag that sets \<^verbatim>\<open>dryRun\<close> does not override the value from the configuration of the
  package.
\<close>

theorem flags_do_not_override:
  "getPackage exampleCollaborators exampleContext exampleA = Inr packageA \<and>
   getOwn (finalOptions (globalOptions exampleContext) (getConfig exampleCollaborators (dir packageA))
      [(''dryRun'', JBool True)]) ''dryRun'' = JBool True \<and>
   getOwn (releaseOptions [(''dryRun'', JBool True)] packageA exampleInlinePlugin) ''dryRun'' = JBool False \<and>
   trace (releaseAll exampleCollaborators exampleContext [(''dryRun'', JBool True)] [packageA] []) ! 1 =
     SemanticRelease 0 (releaseOptions [(''dryRun'', JBool True)] packageA exampleInlinePlugin)
       (releaseContext exampleContext packageA)"
  by code_simp

text \<open>
  C4, as the code has it. The claim reads: the options a pipeline is invoked with merge global
  options, per-package options and flags with precedence flags over per-package over global. In
  the source the options of a package are resolved once, when it is loaded, from the global
  options, then the per-package configuration, then the input options, each overriding the one
  before; every call of the release engine is given the flags, overridden by these package
  options, overridden by the inline plugin, and for every key but \<^verbatim>\<open>tagFormat\<close> and
  \<^verbatim>\<open>_pkgOptions\<close> the options passed are that merge. So the flags have the lowest precedence.
\<close>

theorem options_precedence:
  "(getPackage C mc src = Inr pkg \<longrightarrow>
      options pkg = fst (getConfigSemantic C ((mcSettings mc)\<lparr>cwd := dir pkg\<rparr>)
         (finalOptions (globalOptions mc) (getConfig C (dir pkg)) (inputOptions mc)))) \<and>
   (distinct (map fst g) \<and> distinct (map fst p) \<and> distinct (map fst i) \<longrightarrow>
      map_of (finalOptions g p i) = map_of g ++ map_of p ++ map_of i) \<and>
   (SemanticRelease j opts ctx \<in> set (trace (releaseAll C mc flags pkgs sch)) \<longrightarrow>
      (\<exists>ps. opts = releaseOptions flags (pkgs ! j) (createInlinePlugin C ps flags (pkgs ! j)))) \<and>
   (distinct (map fst flags) \<and> distinct (map fst (options pkg')) \<and> distinct (map fst inl) \<and>
    k \<noteq> ''tagFormat'' \<and> k \<noteq> ''_pkgOptions'' \<longrightarrow>
      map_of (releaseOptions flags pkg' inl) k =
        (map_of flags ++ map_of (options pkg') ++ map_of inl) k)"
  using getPackage_Inr(1) map_of_finalOptions engine_call_options(3) map_of_releaseOptions
  by blast

text \<open>
  The first example package in a run whose flags set \<^verbatim>\<open>dryRun\<close>, which its configuration sets as
  well: the release engine is given the value of the configuration.
\<close>

theorem options_precedence_witness:
  "getPackage exampleCollaborators exampleContext exampleA = Inr packageA \<and>
   options packageA = [(''dryRun'', JBool False)] \<and>
   map_of (finalOptions [(''dryRun'', JBool False), (''debug'', JBool False)] [(''debug'', JBool True)]
      [(''dryRun'', JBool True)]) = [''dryRun'' \<mapsto> JBool True, ''debug'' \<mapsto> JBool True] \<and>
   SemanticRelease 0 (releaseOptions [(''dryRun'', JBool True)] packageA exampleInlinePlugin)
       (releaseContext exampleContext packageA)
     \<in> set (trace (releaseAll exampleCollaborators exampleContext [(''dryRun'', JBool True)] [packageA] [])) \<and>
   map_of (releaseOptions [(''dryRun'', JBool True)] packageA exampleInlinePlugin) ''dryRun'' =
     Some (JBool False)"
proof -
  let ?g = "[(''dryRun'', JBool False), (''debug'', JBool False)]"
  let ?p = "[(''debug'', JBool True)]"
  let ?i = "[(''dryRun'', JBool True)]"
  let ?opts = "releaseOptions ?i packageA exampleInlinePlugin"
  let ?ctx = "releaseContext exampleContext packageA"
  have 1: "getPackage exampleCollaborators exampleContext exampleA = Inr packageA" by code_simp
  have 2: "distinct (map fst ?g) \<and> distinct (map fst ?p) \<and> distinct (map fst ?i)" by code_simp
  have 3: "SemanticRelease 0 ?opts ?ctx
     \<in> set (trace (releaseAll exampleCollaborators exampleContext ?i [packageA] []))" by code_simp
  have 4: "distinct (map fst ?i) \<and> distinct (map fst (options packageA)) \<and>
     distinct (map fst exampleInlinePlugin) \<and> ''dryRun'' \<noteq> ''tagFormat'' \<and> ''dryRun'' \<noteq> ''_pkgOptions''"
    by code_simp
  have 5: "fst (getConfigSemantic exampleCollaborators ((mcSettings exampleContext)\<lparr>cwd := dir packageA\<rparr>)
         (finalOptions (globalOptions exampleContext) (getConfig exampleCollaborators (dir packageA))
           (inputOptions exampleContext))) = [(''dryRun'', JBool False)]" by code_simp
  have 6: "(map_of ?i ++ map_of (options packageA) ++ map_of exampleInlinePlugin) ''dryRun'' = Some (JBool False)"
    by (simp add: packageA_def examplePackage_def exampleInlinePlugin_def map_add_def)
  note inst = options_precedence [where C=exampleCollaborators and mc=exampleContext and src=exampleA
      and pkg=packageA and g="?g" and p="?p" and i="?i" and j=0 and opts="?opts" and ctx="?ctx"
      and flags="?i" and pkgs="[packageA]" and sch="[]" and pkg'=packageA and inl=exampleInlinePlugin
      and k="''dryRun''"]
  have a: "options packageA = [(''dryRun'', JBool False)]" using inst 1 5 by simp
  have b: "map_of (finalOptions ?g ?p ?i) = map_of ?g ++ map_of ?p ++ map_of ?i" using inst 2 by blast
  have c: "map_of ?opts ''dryRun'' = Some (JBool False)" using inst 4 6 by simp
  have d: "map_of ?g ++ map_of ?p ++ map_of ?i = [''dryRun'' \<mapsto> JBool True, ''debug'' \<mapsto> JBool True]"
    by (rule ext) (simp add: map_add_def)
  show ?thesis using 1 a b c d 3 by simp
qed

subsection \<open>The tag format\<close>

text \<open>
  C5: the options built for the release of a package carry the tag format made of the name of the
  package followed by \<^verbatim>\<open>@${version}\<close>, whatever the flags, the package options and the inline
  plugin hold, and every call of the release engine in a run is given that tag format for its
  package.
\<close>

theorem tagFormat_forced:
  "getOwn (releaseOptions flags pkg inlinePlugin) ''tagFormat'' = JStr (name pkg @ ''@${version}'') \<and>
   (SemanticRelease j opts ctx \<in> set (trace (releaseAll C mc flags pkgs sch)) \<longrightarrow>
      getOwn opts ''tagFormat'' = JStr (name (pkgs ! j) @ ''@${version}''))"
proof -
  have 1: "getOwn (releaseOptions f p i) ''tagFormat'' = JStr (name p @ ''@${version}'')" for f p i
    by (simp add: releaseOptions_def Let_def getOwn_update_same getOwn_update_other)
  show ?thesis using 1 engine_call_options(3) by metis
qed

text \<open>
  A run with a flag that asks for another tag format.
\<close>

theorem tagFormat_forced_witness:
  "SemanticRelease 0
      (releaseOptions [(''tagFormat'', JStr ''v${version}'')] packageA exampleInlinePlugin)
      (releaseContext exampleContext packageA)
     \<in> set (trace (releaseAll exampleCollaborators exampleContext [(''tagFormat'', JStr ''v${version}'')]
          [packageA] [])) \<and>
   getOwn (releaseOptions [(''tagFormat'', JStr ''v${version}'')] packageA exampleInlinePlugin) ''tagFormat''
     = JStr ''pkg-a@${version}''"
proof -
  let ?f = "[(''tagFormat'', JStr ''v${version}'')]"
  let ?opts = "releaseOptions ?f packageA exampleInlinePlugin"
  have 1: "SemanticRelease 0 ?opts (releaseContext exampleContext packageA)
     \<in> set (trace (releaseAll exampleCollaborators exampleContext ?f [packageA] []))" by code_simp
  have 2: "name ([packageA] ! 0) @ ''@${version}'' = ''pkg-a@${version}''" by code_simp
  show ?thesis
    using tagFormat_forced [where j=0 and opts="?opts" and ctx="releaseContext exampleContext packageA"
        and C=exampleCollaborators and mc=exampleContext and flags="?f" and pkgs="[packageA]" and sch="[]"]
      1 2 by simp
qed

subsection \<open>Parameter errors\<close>

text \<open>
  The number 0 given as \<^verbatim>\<open>paths\<close> is no list of strings, yet the parameters pass the check and
  the run starts loading the manifests.
\<close>

theorem falsy_paths_not_checked:
  "JNum 0 \<noteq> JUndefined \<and> \<not> isArrayOf isString (JNum 0) \<and>
   checkParams exampleCollaborators (JNum 0) exampleManifests exampleSettings = None \<and>
   hd (events (multiSemanticRelease exampleCollaborators (JNum 0) exampleManifests [] exampleSettings [] []))
     = Log Complete ''Started multirelease! Loading 2 packages...''"
  by code_simp

text \<open>
  C6, as the code has it. The claim reads: the run fails before any package is loaded iff neither
  paths nor manifests are supplied or a supplied value has the wrong shape. The source checks the
  shape of \<^verbatim>\<open>paths\<close> and \<^verbatim>\<open>packageManifests\<close> only when the value is truthy, so a falsy value of
  the wrong shape is not refused if the other parameter is given. What holds is: the run rejects
  with no event at all exactly when neither parameter is truthy, or a truthy \<^verbatim>\<open>paths\<close> is not
  an array of strings, or a truthy \<^verbatim>\<open>packageManifests\<close> is not an array of objects, or, after
  the defaults are filled in, \<^verbatim>\<open>cwd\<close> is not a directory, \<^verbatim>\<open>env\<close> is not an object, or
  \<^verbatim>\<open>stdout\<close> or \<^verbatim>\<open>stderr\<close> is not a stream.
\<close>

theorem params_rejected_iff:
  "((\<exists>e. outcome (multiSemanticRelease C paths pm io s flags sch) = Rejects e) \<and>
     events (multiSemanticRelease C paths pm io s flags sch) = []) \<longleftrightarrow>
   ((\<not> truthy paths \<and> \<not> truthy pm) \<or>
    (truthy paths \<and> \<not> isArrayOf isString paths) \<or>
    (truthy pm \<and> \<not> isArrayOf isObjectlike pm) \<or>
    \<not> isDirectory C (cwd (withDefaults C s)) \<or>
    \<not> isObjectlike (env (withDefaults C s)) \<or>
    \<not> isStream C (stdout (withDefaults C s)) \<or>
    \<not> isStream C (stderr (withDefaults C s)))"
  (is "?L \<longleftrightarrow> ?R")
proof -
  have R: "?R \<longleftrightarrow> checkParams C paths pm s \<noteq> None"
    using checkParams_None_iff [of C paths pm s] by argo
  show ?thesis
  proof (cases rule: run_cases [where C=C and paths=paths and pm=pm and s=s and io=io and flags=flags and sch=sch])
    case (params e)
    then show ?thesis unfolding R by simp
  next
    case (loading e)
    then show ?thesis unfolding R by (simp add: loadingEvents_def)
  next
    case (cyclic loaded)
    then show ?thesis unfolding R by (simp add: loadingEvents_def)
  next
    case (released loaded)
    have "events (multiSemanticRelease C paths pm io s flags sch) \<noteq> []"
      unfolding released(4) by (rule events_finish_nonempty) (simp add: loadingEvents_def)
    then show ?thesis unfolding R using released(1) by simp
  qed
qed

text \<open>
  A run given nothing, a run given paths that are not strings, and a run given the example
  manifests.
\<close>

theorem params_rejected_iff_witness:
  "\<not> truthy JUndefined \<and>
   outcome (multiSemanticRelease exampleCollaborators JUndefined JUndefined [] exampleSettings [] [])
     = Rejects (Error ''You have to provide either paths[] or packageManifests[]'') \<and>
   events (multiSemanticRelease exampleCollaborators JUndefined JUndefined [] exampleSettings [] []) = [] \<and>
   truthy (jsArray [JNum 1]) \<and> \<not> isArrayOf isString (jsArray [JNum 1]) \<and>
   events (multiSemanticRelease exampleCollaborators (jsArray [JNum 1]) JUndefined [] exampleSettings [] []) = [] \<and>
   checkParams exampleCollaborators JUndefined exampleManifests exampleSettings = None \<and>
   events (multiSemanticRelease exampleCollaborators JUndefined exampleManifests [] exampleSettings
      [(''sequentialPrepare'', JBool True)] []) \<noteq> []"
proof -
  have 1: "\<not> truthy JUndefined" by simp
  have 2: "outcome (multiSemanticRelease exampleCollaborators JUndefined JUndefined [] exampleSettings [] [])
     = Rejects (Error ''You have to provide either paths[] or packageManifests[]'')" by code_simp
  have 3: "truthy (jsArray [JNum 1]) \<and> \<not> isArrayOf isString (jsArray [JNum 1])" by code_simp
  have 4: "\<not> ((\<not> truthy JUndefined \<and> \<not> truthy exampleManifests) \<or>
    (truthy JUndefined \<and> \<not> isArrayOf isString JUndefined) \<or>
    (truthy exampleManifests \<and> \<not> isArrayOf isObjectlike exampleManifests) \<or>
    \<not> isDirectory exampleCollaborators (cwd (withDefaults exampleCollaborators exampleSettings)) \<or>
    \<not> isObjectlike (env (withDefaults exampleCollaborators exampleSettings)) \<or>
    \<not> isStream exampleCollaborators (stdout (withDefaults exampleCollaborators exampleSettings)) \<or>
    \<not> isStream exampleCollaborators (stderr (withDefaults exampleCollaborators exampleSettings)))"
    by code_simp
  have a: "events (multiSemanticRelease exampleCollaborators JUndefined JUndefined [] exampleSettings [] []) = []"
    using params_rejected_iff [of exampleCollaborators JUndefined JUndefined "[]" exampleSettings "[]" "[]"] 1
    by simp
  have b: "events (multiSemanticRelease exampleCollaborators (jsArray [JNum 1]) JUndefined [] exampleSettings [] []) = []"
    using params_rejected_iff [of exampleCollaborators "jsArray [JNum 1]" JUndefined "[]" exampleSettings "[]" "[]"] 3
    by simp
  have c: "\<not> ((\<exists>e. outcome (multiSemanticRelease exampleCollaborators JUndefined exampleManifests [] exampleSettings [] []) = Rejects e) \<and>
      events (multiSemanticRelease exampleCollaborators JUndefined exampleManifests [] exampleSettings [] []) = [])"
    unfolding params_rejected_iff by (rule 4)
  have d: "outcome (multiSemanticRelease exampleCollaborators JUndefined exampleManifests [] exampleSettings
      [(''sequentialPrepare'', JBool True)] []) = Rejects cyclicError" by code_simp
  have e: "events (multiSemanticRelease exampleCollaborators JUndefined exampleManifests [] exampleSettings
      [(''sequentialPrepare'', JBool True)] []) \<noteq> []"
    using params_rejected_iff [of exampleCollaborators JUndefined exampleManifests "[]" exampleSettings
      "[(''sequentialPrepare'', JBool True)]" "[]"] 4 d by blast
  show ?thesis using 1 2 3 a b e example_params by simp
qed

subsection \<open>The result of a package\<close>

text \<open>
  After the pipeline of the first example package has failed its result is still undefined and
  was never written.
\<close>

theorem failed_pipeline_leaves_result_undefined:
  "tasks (releaseAll exampleCollaborators exampleContext [] examplePackages failingSchedule) ! 0
     = Rejected (PipelineError ''boom'') \<and>
   writesOf 0 (trace (releaseAll exampleCollaborators exampleContext [] examplePackages failingSchedule)) = [] \<and>
   result (packages (releaseAll exampleCollaborators exampleContext [] examplePackages failingSchedule) ! 0)
     = JUndefined"
  by code_simp

text \<open>
  C7, as the code has it. The claim reads: the \<^verbatim>\<open>result\<close> of a package starts undefined and is
  assigned exactly once, by the task of that package. In the source the assignment follows the
  await of the release engine, so the task of a failed pipeline never assigns it. What holds
  is: a loaded package has an undefined result; in every state of a run, a package whose task is
  fulfilled has been written exactly once, with a value the release engine returned, which it
  now holds, and every other package has never been written and holds the result it started
  with; a step writes at most the result of the package whose release settles with success;
  spawning the tasks writes nothing; at the end of a schedule the task, the writes and the result
  of a package are decided by the settlement of its own release alone: one write of the value of
  the release if it settled with success, and no write, the result being what it was, if it
  failed or has not settled; and when the release of a package whose task awaits the engine
  settles with success the task is fulfilled, the result is assigned and the write is recorded,
  while a failure rejects the task and leaves the packages as they are.
\<close>

theorem result_written_at_most_once:
  "(getPackage C mc src = Inr pkg \<longrightarrow> result pkg = JUndefined) \<and>
   (i < length pkgs \<longrightarrow>
      (if tasks (releaseAll C mc flags pkgs sch) ! i = Fulfilled
       then \<exists>x. writesOf i (trace (releaseAll C mc flags pkgs sch)) = [SetResult i (resultValue x)] \<and>
                result (packages (releaseAll C mc flags pkgs sch) ! i) = resultValue x
       else writesOf i (trace (releaseAll C mc flags pkgs sch)) = [] \<and>
            result (packages (releaseAll C mc flags pkgs sch) ! i) = result (pkgs ! i))) \<and>
   (packages (step C mc flags occ st) = packages st \<or>
    (\<exists>j x. occ = Settles j (Inr x) \<and> j < length (tasks st) \<and> tasks st ! j = AwaitingEngine \<and>
       packages (step C mc flags occ st) = (packages st)[j := (packages st ! j)\<lparr>result := resultValue x\<rparr>])) \<and>
   packages (spawnAll C mc flags pkgs) = pkgs \<and>
   (i < length pkgs \<longrightarrow>
      tasks (releaseAll C mc flags pkgs sch) ! i = taskAfter flags i sch \<and>
      writesOf i (trace (releaseAll C mc flags pkgs sch)) =
        (case settlementOf flags i sch of Some (Inr r) \<Rightarrow> [SetResult i (resultValue r)] | _ \<Rightarrow> []) \<and>
      result (packages (releaseAll C mc flags pkgs sch) ! i) = resultAfter flags i sch (result (pkgs ! i))) \<and>
   (j < length (tasks st) \<and> tasks st ! j = AwaitingEngine \<longrightarrow>
      tasks (step C mc flags (Settles j (Inr r)) st) ! j = Fulfilled \<and>
      packages (step C mc flags (Settles j (Inr r)) st) =
        (packages st)[j := (packages st ! j)\<lparr>result := resultValue r\<rparr>] \<and>
      trace (step C mc flags (Settles j (Inr r)) st) = trace st @ [SetResult j (resultValue r)] \<and>
      tasks (step C mc flags (Settles j (Inl reason)) st) ! j = Rejected (PipelineError reason) \<and>
      packages (step C mc flags (Settles j (Inl reason)) st) = packages st \<and>
      trace (step C mc flags (Settles j (Inl reason)) st) =
        trace st @ [TaskRejected j (PipelineError reason)])"
proof -
  note old = result_writes [of C mc src pkg i pkgs flags sch occ st]
  have 5: "i < length pkgs \<longrightarrow>
      tasks (releaseAll C mc flags pkgs sch) ! i = taskAfter flags i sch \<and>
      writesOf i (trace (releaseAll C mc flags pkgs sch)) =
        (case settlementOf flags i sch of Some (Inr r) \<Rightarrow> [SetResult i (resultValue r)] | _ \<Rightarrow> []) \<and>
      result (packages (releaseAll C mc flags pkgs sch) ! i) = resultAfter flags i sch (result (pkgs ! i))"
  proof
    assume i: "i < length pkgs"
    show "tasks (releaseAll C mc flags pkgs sch) ! i = taskAfter flags i sch \<and>
      writesOf i (trace (releaseAll C mc flags pkgs sch)) =
        (case settlementOf flags i sch of Some (Inr r) \<Rightarrow> [SetResult i (resultValue r)] | _ \<Rightarrow> []) \<and>
      result (packages (releaseAll C mc flags pkgs sch) ! i) = resultAfter flags i sch (result (pkgs ! i))"
      by (intro conjI) (rule unit_outcome(1) [OF i], rule written_events [OF i], rule unit_outcome(2) [OF i])
  qed
  have 6: "j < length (tasks st) \<and> tasks st ! j = AwaitingEngine \<longrightarrow>
      tasks (step C mc flags (Settles j (Inr r)) st) ! j = Fulfilled \<and>
      packages (step C mc flags (Settles j (Inr r)) st) =
        (packages st)[j := (packages st ! j)\<lparr>result := resultValue r\<rparr>] \<and>
      trace (step C mc flags (Settles j (Inr r)) st) = trace st @ [SetResult j (resultValue r)] \<and>
      tasks (step C mc flags (Settles j (Inl reason)) st) ! j = Rejected (PipelineError reason) \<and>
      packages (step C mc flags (Settles j (Inl reason)) st) = packages st \<and>
      trace (step C mc flags (Settles j (Inl reason)) st) =
        trace st @ [TaskRejected j (PipelineError reason)]"
  proof
    assume a: "j < length (tasks st) \<and> tasks st ! j = AwaitingEngine"
    note s = settle_success [OF conjunct1 [OF a] conjunct2 [OF a]]
    note f = settle_failure [OF conjunct1 [OF a] conjunct2 [OF a]]
    show "tasks (step C mc flags (Settles j (Inr r)) st) ! j = Fulfilled \<and>
      packages (step C mc flags (Settles j (Inr r)) st) =
        (packages st)[j := (packages st ! j)\<lparr>result := resultValue r\<rparr>] \<and>
      trace (step C mc flags (Settles j (Inr r)) st) = trace st @ [SetResult j (resultValue r)] \<and>
      tasks (step C mc flags (Settles j (Inl reason)) st) ! j = Rejected (PipelineError reason) \<and>
      packages (step C mc flags (Settles j (Inl reason)) st) = packages st \<and>
      trace (step C mc flags (Settles j (Inl reason)) st) =
        trace st @ [TaskRejected j (PipelineError reason)]"
      by (intro conjI) (rule s(1), rule s(2), rule s(3), rule f(1), rule f(2), rule f(3))
  qed
  show ?thesis
    by (rule conjI [OF conjunct1 [OF old] conjI [OF conjunct1 [OF conjunct2 [OF old]]
          conjI [OF conjunct1 [OF conjunct2 [OF conjunct2 [OF old]]]
            conjI [OF conjunct2 [OF conjunct2 [OF conjunct2 [OF old]]] conjI [OF 5 6]]]]])
qed

text \<open>
  The first example package when its pipeline succeeds and when it fails.
\<close>

theorem result_written_at_most_once_witness:
  "getPackage exampleCollaborators exampleContext exampleA = Inr packageA \<and>
   result packageA = JUndefined \<and>
   settlementOf [] 0 passingSchedule = Some (Inr (Released [])) \<and>
   tasks (releaseAll exampleCollaborators exampleContext [] examplePackages passingSchedule) ! 0 = Fulfilled \<and>
   writesOf 0 (trace (releaseAll exampleCollaborators exampleContext [] examplePackages passingSchedule))
     = [SetResult 0 (JObj [])] \<and>
   result (packages (releaseAll exampleCollaborators exampleContext [] examplePackages passingSchedule) ! 0)
     = JObj [] \<and>
   settlementOf [] 0 failingSchedule = Some (Inl ''boom'') \<and>
   tasks (releaseAll exampleCollaborators exampleContext [] examplePackages failingSchedule) ! 0
     = Rejected (PipelineError ''boom'') \<and>
   writesOf 0 (trace (releaseAll exampleCollaborators exampleContext [] examplePackages failingSchedule)) = [] \<and>
   result (packages (releaseAll exampleCollaborators exampleContext [] examplePackages failingSchedule) ! 0)
     = JUndefined"
proof -
  let ?ok = "releaseAll exampleCollaborators exampleContext [] examplePackages passingSchedule"
  let ?ko = "releaseAll exampleCollaborators exampleContext [] examplePackages failingSchedule"
  have g: "getPackage exampleCollaborators exampleContext exampleA = Inr packageA" by code_simp
  have l: "0 < length examplePackages" by code_simp
  have p: "settlementOf [] 0 passingSchedule = Some (Inr (Released []))" by code_simp
  have f: "settlementOf [] 0 failingSchedule = Some (Inl ''boom'')" by code_simp
  have u: "result (examplePackages ! 0) = JUndefined" by code_simp
  note ok = result_written_at_most_once [where C=exampleCollaborators and mc=exampleContext
      and src=exampleA and pkg=packageA and i=0 and pkgs=examplePackages and flags="[]"
      and sch=passingSchedule and occ="Signals 0" and st="initialState examplePackages"
      and j=0 and r=Skipped and reason="''boom''"]
  note ko = result_written_at_most_once [where C=exampleCollaborators and mc=exampleContext
      and src=exampleA and pkg=packageA and i=0 and pkgs=examplePackages and flags="[]"
      and sch=failingSchedule and occ="Signals 0" and st="initialState examplePackages"
      and j=0 and r=Skipped and reason="''boom''"]
  have 1: "result packageA = JUndefined" using mp [OF conjunct1 [OF ok] g] .
  note ok5 = mp [OF conjunct1 [OF conjunct2 [OF conjunct2 [OF conjunct2 [OF conjunct2 [OF ok]]]]] l]
  note ko5 = mp [OF conjunct1 [OF conjunct2 [OF conjunct2 [OF conjunct2 [OF conjunct2 [OF ko]]]]] l]
  have 2: "tasks ?ok ! 0 = Fulfilled" "writesOf 0 (trace ?ok) = [SetResult 0 (JObj [])]"
    "result (packages ?ok ! 0) = JObj []"
    using ok5 p by (simp_all add: taskAfter_def resultAfter_def)
  have 3: "tasks ?ko ! 0 = Rejected (PipelineError ''boom'')" "writesOf 0 (trace ?ko) = []"
    "result (packages ?ko ! 0) = JUndefined"
    using ko5 f u by (simp_all add: taskAfter_def resultAfter_def)
  show ?thesis using g 1 p 2 f 3 by simp
qed

subsection \<open>The gate of sequentialInit before the pipeline\<close>



subsection \<open>A package that depends on itself\<close>

text \<open>
  The second of two packages named \<open>dup\<close> lists \<open>dup\<close> among its dependencies, and its only local
  dependency is the first one, not itself.
\<close>

theorem duplicate_name_no_self_edge:
  "getPackage exampleCollaborators exampleContext exampleD2 = Inr (duplicatePackages ! 1) \<and>
   name (duplicatePackages ! 1) \<in> set (deps (duplicatePackages ! 1)) \<and>
   name (duplicatePackages ! 0) = name (duplicatePackages ! 1) \<and>
   localDeps (linkLocalDeps duplicatePackages ! 1) = [0] \<and>
   1 \<notin> set (localDeps (linkLocalDeps duplicatePackages ! 1))"
  by code_simp

text \<open>
  C9, as the code has it. The claim reads: every package whose manifest lists its own name gets
  itself among its local dependencies. \<^verbatim>\<open>packages.find\<close> returns the first loaded package of a
  name, so a package that shares its name with an earlier one is linked to that one instead.
  What holds is: a package that lists its own name among its declared dependencies is one of its
  own local dependencies exactly when no earlier loaded package has the same name, and exactly
  then the dependency graph has an edge from the package to itself; in that case the cycle
  detector reports the set as cyclic; and in every case the first loaded package of that name is
  a local dependency of the package.
\<close>

theorem self_dependency_edge:
  assumes "i < length pkgs" "name (pkgs ! i) \<in> set (deps (pkgs ! i))"
  shows "(i \<in> set (localDeps (linkLocalDeps pkgs ! i)) \<longleftrightarrow>
            (\<forall>j < i. name (pkgs ! j) \<noteq> name (pkgs ! i))) \<and>
         ((i, i) \<in> depEdges (linkLocalDeps pkgs) \<longleftrightarrow>
            (\<forall>j < i. name (pkgs ! j) \<noteq> name (pkgs ! i))) \<and>
         ((\<forall>j < i. name (pkgs ! j) \<noteq> name (pkgs ! i)) \<longrightarrow> isCyclicProject (linkLocalDeps pkgs)) \<and>
         (\<exists>j \<le> i. name (pkgs ! j) = name (pkgs ! i) \<and>
            (\<forall>k < j. name (pkgs ! k) \<noteq> name (pkgs ! i)) \<and>
            j \<in> set (localDeps (linkLocalDeps pkgs ! i)) \<and>
            (i, j) \<in> depEdges (linkLocalDeps pkgs))"
proof -
  let ?L = "localDeps (linkLocalDeps pkgs ! i)"
  let ?first = "\<forall>j < i. name (pkgs ! j) \<noteq> name (pkgs ! i)"
  have "?L = localDepsOf pkgs (pkgs ! i)"
    using assms(1) by (simp add: nth_linkLocalDeps)
  then have S: "set ?L = {j. j < length pkgs \<and> name (pkgs ! j) \<in> set (deps (pkgs ! i)) \<and>
         (\<forall>k < j. name (pkgs ! k) \<noteq> name (pkgs ! j))}"
    by (simp add: set_localDepsOf)
  have E: "(i, j) \<in> depEdges (linkLocalDeps pkgs) \<longleftrightarrow> j < length pkgs \<and> j \<in> set ?L" for j
    using assms(1) by (simp add: depEdges_def)
  have 1: "i \<in> set ?L \<longleftrightarrow> ?first"
    unfolding S using assms by simp
  have 2: "(i, i) \<in> depEdges (linkLocalDeps pkgs) \<longleftrightarrow> ?first"
    unfolding E 1 using assms(1) by simp
  have 3: "?first \<longrightarrow> isCyclicProject (linkLocalDeps pkgs)"
  proof
    assume ?first
    then have "(i, i) \<in> (depEdges (linkLocalDeps pkgs))\<^sup>+" using 2 by blast
    then have "\<not> acyclic (depEdges (linkLocalDeps pkgs))" by (auto simp: acyclic_def)
    then show "isCyclicProject (linkLocalDeps pkgs)" by (simp add: isCyclicProject_iff)
  qed
  have "name (pkgs ! i) \<in> name ` set pkgs" using assms(1) by simp
  from first_of_name [OF this]
  obtain j where j: "j < length pkgs" "name (pkgs ! j) = name (pkgs ! i)"
    "\<forall>k < j. name (pkgs ! k) \<noteq> name (pkgs ! i)" by blast
  have ji: "j \<le> i"
  proof (rule ccontr)
    assume "\<not> j \<le> i"
    then have "i < j" by simp
    then show False using j(3) by blast
  qed
  have jl: "j \<in> set ?L" unfolding S using j assms(2) by simp
  have 4: "\<exists>j \<le> i. name (pkgs ! j) = name (pkgs ! i) \<and>
            (\<forall>k < j. name (pkgs ! k) \<noteq> name (pkgs ! i)) \<and>
            j \<in> set ?L \<and> (i, j) \<in> depEdges (linkLocalDeps pkgs)"
    using ji j jl unfolding E by blast
  show ?thesis using 1 2 3 4 by blast
qed

text \<open>
  The example package that lists itself, loaded after another one, and the second of two
  packages of the same name.
\<close>

theorem self_dependency_edge_witness:
  "name ([packageA, packageS] ! 1) \<in> set (deps ([packageA, packageS] ! 1)) \<and>
   name ([packageA, packageS] ! 0) \<noteq> name ([packageA, packageS] ! 1) \<and>
   1 \<in> set (localDeps (linkLocalDeps [packageA, packageS] ! 1)) \<and>
   (1, 1) \<in> depEdges (linkLocalDeps [packageA, packageS]) \<and>
   isCyclicProject (linkLocalDeps [packageA, packageS]) \<and>
   name (duplicatePackages ! 1) \<in> set (deps (duplicatePackages ! 1)) \<and>
   name (duplicatePackages ! 0) = name (duplicatePackages ! 1) \<and>
   1 \<notin> set (localDeps (linkLocalDeps duplicatePackages ! 1)) \<and>
   (1, 1) \<notin> depEdges (linkLocalDeps duplicatePackages)"
proof -
  have l: "1 < length [packageA, packageS]" by simp
  have 1: "name ([packageA, packageS] ! 1) \<in> set (deps ([packageA, packageS] ! 1))" by code_simp
  have 2: "name ([packageA, packageS] ! 0) \<noteq> name ([packageA, packageS] ! 1)" by code_simp
  have f: "\<forall>j < 1. name ([packageA, packageS] ! j) \<noteq> name ([packageA, packageS] ! 1)"
    using 2 by simp
  have l': "1 < length duplicatePackages" by code_simp
  have 3: "name (duplicatePackages ! 1) \<in> set (deps (duplicatePackages ! 1))" by code_simp
  have 4: "name (duplicatePackages ! 0) = name (duplicatePackages ! 1)" by code_simp
  have g: "\<not> (\<forall>j < 1. name (duplicatePackages ! j) \<noteq> name (duplicatePackages ! 1))"
    using 4 by simp
  note a = self_dependency_edge [OF l 1]
  note b = self_dependency_edge [OF l' 3]
  have 5: "1 \<in> set (localDeps (linkLocalDeps [packageA, packageS] ! 1))"
    using conjunct1 [OF a] f by blast
  have 6: "(1, 1) \<in> depEdges (linkLocalDeps [packageA, packageS])"
    using conjunct1 [OF conjunct2 [OF a]] f by blast
  have 7: "isCyclicProject (linkLocalDeps [packageA, packageS])"
    using conjunct1 [OF conjunct2 [OF conjunct2 [OF a]]] f by blast
  have 8: "1 \<notin> set (localDeps (linkLocalDeps duplicatePackages ! 1))"
    using conjunct1 [OF b] g by blast
  have 9: "(1, 1) \<notin> depEdges (linkLocalDeps duplicatePackages)"
    using conjunct1 [OF conjunct2 [OF b]] g by blast
  show ?thesis
    by (rule conjI [OF 1 conjI [OF 2 conjI [OF 5 conjI [OF 6 conjI [OF 7 conjI [OF 3 conjI [OF 4 conjI [OF 8 9]]]]]]]])
qed

subsection \<open>Nesting of dotted flags\<close>

text \<open>
  The flag \<^verbatim>\<open>deps\<close> is overwritten by the later flag \<^verbatim>\<open>deps.bump\<close>.
\<close>

theorem colliding_flags_overwrite:
  "processFlags collidingFlags = Inr (JObj [(''deps'', JObj [(''bump'', JStr ''override'')])]) \<and>
   getPath (toPath ''deps'') (JObj [(''deps'', JObj [(''bump'', JStr ''override'')])]) \<noteq> JStr ''x''"
  by code_simp

text \<open>
  C10, as the code has it. The claim reads: every dotted flag is stored at its nested path, a
  truthy \<^verbatim>\<open>ignorePackages\<close> is split on commas, and all other flags are passed unchanged. In the
  source a later flag whose path runs through or ends at the path of an earlier one overwrites
  it. What holds is: when no flag path is a prefix of another, the names are plain dotted keys,
  and a truthy \<^verbatim>\<open>ignorePackages\<close> is a string, the flags are processed to an object in which
  every flag is read back at its path: the list of the comma-separated parts for a truthy
  \<^verbatim>\<open>ignorePackages\<close>, and the value itself for every other flag.
\<close>

theorem processFlags_nests:
  assumes "independentPaths (map (\<lambda>kv. toPath (fst kv)) flags)"
    and "list_all (\<lambda>kv. plainName (fst kv)) flags"
    and "list_all (\<lambda>kv. fst kv = ''ignorePackages'' \<and> truthy (snd kv) \<longrightarrow> isString (snd kv)) flags"
  shows "\<exists>m. processFlags flags = Inr m \<and> isObjectlike m \<and>
     (\<forall>kv \<in> set flags.
        (fst kv = ''ignorePackages'' \<and> truthy (snd kv) \<longrightarrow>
           (\<exists>s. snd kv = JStr s \<and>
                getPath (toPath (fst kv)) m = jsArray (map JStr (splitOn (CHR '','') s)))) \<and>
        (\<not> (fst kv = ''ignorePackages'' \<and> truthy (snd kv)) \<longrightarrow>
           getPath (toPath (fst kv)) m = snd kv))"
proof -
  obtain m where m: "processFlags flags = Inr m"
    using processFlags_total [of flags] assms(3) by (auto simp: list_all_iff)
  have safe: "\<forall>kv \<in> set flags. \<forall>seg \<in> set (toPath (fst kv)). \<not> unsafeKey seg"
    using assms(2) by (auto simp: list_all_iff plainName_def)
  note r = processFlags_reads [OF assms(1) safe m]
  have "(fst kv = ''ignorePackages'' \<and> truthy (snd kv) \<longrightarrow>
           (\<exists>s. snd kv = JStr s \<and>
                getPath (toPath (fst kv)) m = jsArray (map JStr (splitOn (CHR '','') s)))) \<and>
        (\<not> (fst kv = ''ignorePackages'' \<and> truthy (snd kv)) \<longrightarrow>
           getPath (toPath (fst kv)) m = snd kv)" if kv: "kv \<in> set flags" for kv
  proof -
    have g: "getPath (toPath (fst kv)) m = storedValue (fst kv) (snd kv)"
      and s: "fst kv = ''ignorePackages'' \<and> truthy (snd kv) \<longrightarrow> isString (snd kv)"
      using r kv by blast+
    show ?thesis
    proof (cases "fst kv = ''ignorePackages'' \<and> truthy (snd kv)")
      case True
      then obtain str where "snd kv = JStr str" using s by (cases "snd kv") auto
      then show ?thesis using True g by (simp add: storedValue_def)
    next
      case False
      then show ?thesis using g by (auto simp: storedValue_def)
    qed
  qed
  then show ?thesis using m r by blast
qed

text \<open>
  The example flags, none of which is stored inside another.
\<close>

theorem processFlags_nests_witness:
  "processFlags exampleFlags =
     Inr (JObj [(''sequentialInit'', JBool True),
                (''deps'', JObj [(''bump'', JStr ''override''), (''release'', JStr ''patch'')]),
                (''ignorePackages'', jsArray [JStr ''a'', JStr ''b''])]) \<and>
   getPath [''deps'', ''bump''] (JObj [(''sequentialInit'', JBool True),
                (''deps'', JObj [(''bump'', JStr ''override''), (''release'', JStr ''patch'')]),
                (''ignorePackages'', jsArray [JStr ''a'', JStr ''b''])]) = JStr ''override'' \<and>
   getPath [''ignorePackages''] (JObj [(''sequentialInit'', JBool True),
                (''deps'', JObj [(''bump'', JStr ''override''), (''release'', JStr ''patch'')]),
                (''ignorePackages'', jsArray [JStr ''a'', JStr ''b''])]) = jsArray [JStr ''a'', JStr ''b'']"
proof -
  let ?m = "JObj [(''sequentialInit'', JBool True),
                (''deps'', JObj [(''bump'', JStr ''override''), (''release'', JStr ''patch'')]),
                (''ignorePackages'', jsArray [JStr ''a'', JStr ''b''])]"
  have a: "independentPaths (map (\<lambda>kv. toPath (fst kv)) exampleFlags)" by code_simp
  have b: "list_all (\<lambda>kv. plainName (fst kv)) exampleFlags" by code_simp
  have c: "list_all (\<lambda>kv. fst kv = ''ignorePackages'' \<and> truthy (snd kv) \<longrightarrow> isString (snd kv)) exampleFlags"
    by code_simp
  have p: "processFlags exampleFlags = Inr ?m" by code_simp
  have k1: "(''deps.bump'', JStr ''override'') \<in> set exampleFlags" by code_simp
  have k2: "(''ignorePackages'', JStr ''a,b'') \<in> set exampleFlags" by code_simp
  have t1: "toPath ''deps.bump'' = [''deps'', ''bump'']" by code_simp
  have t2: "toPath ''ignorePackages'' = [''ignorePackages'']" by code_simp
  have s: "jsArray (map JStr (splitOn (CHR '','') ''a,b'')) = jsArray [JStr ''a'', JStr ''b'']" by code_simp
  have e: "''deps.bump'' \<noteq> ''ignorePackages''" by simp
  obtain m where m: "processFlags exampleFlags = Inr m"
    and r: "\<forall>kv \<in> set exampleFlags.
        (fst kv = ''ignorePackages'' \<and> truthy (snd kv) \<longrightarrow>
           (\<exists>s. snd kv = JStr s \<and>
                getPath (toPath (fst kv)) m = jsArray (map JStr (splitOn (CHR '','') s)))) \<and>
        (\<not> (fst kv = ''ignorePackages'' \<and> truthy (snd kv)) \<longrightarrow>
           getPath (toPath (fst kv)) m = snd kv)"
    using processFlags_nests [OF a b c] by blast
  have mm: "m = ?m" using m p by simp
  have "getPath (toPath ''deps.bump'') m = JStr ''override''"
    using bspec [OF r k1] e by simp
  then have 1: "getPath [''deps'', ''bump''] ?m = JStr ''override''"
    unfolding mm t1 .
  have "getPath (toPath ''ignorePackages'') m = jsArray (map JStr (splitOn (CHR '','') ''a,b''))"
    using bspec [OF r k2] by simp
  then have 2: "getPath [''ignorePackages''] ?m = jsArray [JStr ''a'', JStr ''b'']"
    unfolding mm t2 s .
  show ?thesis using p 1 2 by blast
qed

end
